theory Spec2Isabelle
  imports Main
begin

section \<open>The document tree\<close>

text \<open>
  Modelled from the spec: the module \<^verbatim>\<open>DeadDocument\<close> (node tags, node constructors,
  fringe walker) is imported by the sources but is not among them.  The spec (section 3)
  gives the tag as an enumerated kind; the sources name \<^verbatim>\<open>NodeTag.Root\<close> and
  \<^verbatim>\<open>NodeTag.TextNode\<close> (the spec's TextLeaf).  \<open>OtherTag\<close> stands for the kinds the
  spec leaves open.
\<close>

datatype NodeTag =
  Root | Fragment | Heading | Paragraph | UnorderedList | ListItem | Bold | Italic
  | InlineCode | CodeBlock | Anchor | LineBreak | TextNode | OtherTag string

text \<open>
  Modelled from the spec: a document node has a tag and ordered children; a leaf node
  carries a literal payload and has no children.  The field \<^verbatim>\<open>leafNode\<close> that
  \<^verbatim>\<open>JSXFactory\<close> tests is the constructor.  The parent back-reference is navigational
  only and is the position of the node in its owner's list of children.
\<close>

datatype AbstractNode =
  DocumentNode NodeTag "AbstractNode list"
  | LeafNode NodeTag string

fun tag :: "AbstractNode \<Rightarrow> NodeTag" where
  "tag (DocumentNode t cs) = t"
| "tag (LeafNode t d) = t"

fun leafNode :: "AbstractNode \<Rightarrow> bool" where
  "leafNode (DocumentNode t cs) = False"
| "leafNode (LeafNode t d) = True"

fun getChildren :: "AbstractNode \<Rightarrow> AbstractNode list" where
  "getChildren (DocumentNode t cs) = cs"
| "getChildren (LeafNode t d) = []"

section \<open>The render orchestrator: \<^verbatim>\<open>renderMatrix\<close>\<close>

text \<open>The two renderer tables that \<^verbatim>\<open>renderMatrix\<close> hands to its walkers.\<close>

datatype Renderer = MARKDOWN_RENDERER | HTML_RENDERER

text \<open>
  The classes \<^verbatim>\<open>PagedDuplexStream\<close> and \<^verbatim>\<open>FringeWalker\<close> are not among the sources,
  so \<^verbatim>\<open>renderMatrix\<close> is modelled over their interface: \<open>'s\<close> is the state of a stream,
  \<open>'w\<close> the state of a walker, \<open>'n\<close> a node reference as a walker returns it (compared
  with \<^verbatim>\<open>Object.is\<close>, here with equality).  A walker writes to the stream of its
  context, so \<open>increment\<close> takes the stream and returns it updated; it may raise.
  The stream constructor takes the optional page size: \<^verbatim>\<open>new PagedDuplexStream()\<close>
  is \<open>PagedDuplexStream_new None\<close>.
\<close>

record ('w, 's, 'n) Collaborators =
  PagedDuplexStream_new :: "nat option \<Rightarrow> 's"
  commit :: "'n \<Rightarrow> 's \<Rightarrow> 's"
  peekPage :: "'s \<Rightarrow> bool"
  ensureNewPage :: "'s \<Rightarrow> 's"
  readPage :: "'s \<Rightarrow> string option \<times> 's"
  FringeWalker_new :: "AbstractNode \<Rightarrow> Renderer \<Rightarrow> ('n \<Rightarrow> 's \<Rightarrow> 's) \<Rightarrow> 'w"
  increment :: "'w \<Rightarrow> 's \<Rightarrow> string + ('n option \<times> 'w \<times> 's)"

text \<open>
  What \<^verbatim>\<open>renderMatrix\<close> can raise: its own two \<^verbatim>\<open>TypeError\<close>s, a rejection of the
  send callback (carried unchanged), an exception of a walker.
\<close>

datatype 'e RenderError =
  NoRootError
  | WalkerBugError
  | SendRejected 'e
  | WalkerRaised string

text \<open>
  The observable steps of a run, in the order they happen.  A send is recorded with the
  two page texts it was given and what the callback answered.
\<close>

datatype ('n, 'e) Effect =
  StreamConstructed Renderer "nat option"
  | WalkerConstructed Renderer
  | Incremented Renderer "'n option"
  | PageRead Renderer "string option"
  | Sent "string option" "string option" "'e + string"

text \<open>
  The local variables of \<^verbatim>\<open>renderMatrix\<close>, the state of the callback's side
  (\<open>cbState\<close>: the callback is a stateful function of the caller), and the steps so far.
\<close>

record ('w, 's, 'n, 'e, 'c) RenderState =
  markdownOutput :: 's
  markdownWalker :: 'w
  htmlOutput :: 's
  htmlWalker :: 'w
  eventIds :: "string list"
  currentMarkdownNode :: "'n option"
  currentHtmlNode :: "'n option"
  cbState :: 'c
  effects :: "('n, 'e) Effect list"

text \<open>
  How a run ends: the value returned or the error raised, the identifiers collected in
  \<^verbatim>\<open>eventIds\<close> by then, the callback's state and the steps performed.
\<close>

record ('n, 'e, 'c) RenderOutcome =
  returned :: "'e RenderError + string list"
  collected :: "string list"
  cbFinal :: 'c
  performed :: "('n, 'e) Effect list"

type_synonym ('e, 'c) SendMatrixEventCB =
  "'c \<Rightarrow> string option \<Rightarrow> string option \<Rightarrow> ('e + string) \<times> 'c"

definition raise ::
  "'e RenderError \<Rightarrow> ('w, 's, 'n, 'e, 'c) RenderState \<Rightarrow> ('n, 'e, 'c) RenderOutcome" where
  "raise err st =
     \<lparr>returned = Inl err, collected = eventIds st, cbFinal = cbState st,
      performed = effects st\<rparr>"

definition checkEqual :: "'n option \<Rightarrow> 'n option \<Rightarrow> 'e RenderError + bool" where
  "checkEqual node1 node2 = (if node1 \<noteq> node2 then Inl WalkerBugError else Inr True)"

text \<open>\<^verbatim>\<open>outputs.some(o => o.peekPage())\<close> with \<^verbatim>\<open>outputs = [htmlOutput, markdownOutput]\<close>.\<close>

definition somePeekPage ::
  "('w, 's, 'n) Collaborators \<Rightarrow> ('w, 's, 'n, 'e, 'c) RenderState \<Rightarrow> bool" where
  "somePeekPage deps st =
     (peekPage deps (htmlOutput st) \<or> peekPage deps (markdownOutput st))"

text \<open>\<^verbatim>\<open>outputs.forEach(o => o.ensureNewPage())\<close>.\<close>

definition ensureNewPages ::
  "('w, 's, 'n) Collaborators \<Rightarrow> ('w, 's, 'n, 'e, 'c) RenderState
     \<Rightarrow> ('w, 's, 'n, 'e, 'c) RenderState" where
  "ensureNewPages deps st =
     st\<lparr>htmlOutput := ensureNewPage deps (htmlOutput st),
        markdownOutput := ensureNewPage deps (markdownOutput st)\<rparr>"

text \<open>
  \<^verbatim>\<open>eventIds.push(await cb(markdownOutput.readPage()!, htmlOutput.readPage()!))\<close>:
  the markdown page is read first, then the html page, then the callback runs; the
  identifier is pushed only when the callback resolves.
\<close>

definition sendPage ::
  "('w, 's, 'n) Collaborators \<Rightarrow> ('e, 'c) SendMatrixEventCB
     \<Rightarrow> ('w, 's, 'n, 'e, 'c) RenderState
     \<Rightarrow> ('n, 'e, 'c) RenderOutcome + ('w, 's, 'n, 'e, 'c) RenderState" where
  "sendPage deps cb st =
     (case readPage deps (markdownOutput st) of (text, md') \<Rightarrow>
      case readPage deps (htmlOutput st) of (html, html') \<Rightarrow>
      case cb (cbState st) text html of (answer, c') \<Rightarrow>
        let st' = st\<lparr>markdownOutput := md', htmlOutput := html', cbState := c',
                     effects := effects st @
                       [PageRead MARKDOWN_RENDERER text, PageRead HTML_RENDERER html,
                        Sent text html answer]\<rparr>
        in (case answer of
              Inl e \<Rightarrow> Inl (raise (SendRejected e) st')
            | Inr eventId \<Rightarrow> Inr (st'\<lparr>eventIds := eventIds st' @ [eventId]\<rparr>)))"

text \<open>
  \<^verbatim>\<open>currentMarkdownNode = markdownWalker.increment();
  currentHtmlNode = htmlWalker.increment();
  checkEqual(currentHtmlNode, currentMarkdownNode);\<close>
\<close>

definition incrementBoth ::
  "('w, 's, 'n) Collaborators \<Rightarrow> ('w, 's, 'n, 'e, 'c) RenderState
     \<Rightarrow> ('n, 'e, 'c) RenderOutcome + ('w, 's, 'n, 'e, 'c) RenderState" where
  "incrementBoth deps st =
     (case increment deps (markdownWalker st) (markdownOutput st) of
        Inl msg \<Rightarrow> Inl (raise (WalkerRaised msg) st)
      | Inr (mdNode, mdW, mdOut) \<Rightarrow>
          let st1 = st\<lparr>currentMarkdownNode := mdNode, markdownWalker := mdW,
                       markdownOutput := mdOut,
                       effects := effects st @ [Incremented MARKDOWN_RENDERER mdNode]\<rparr>
          in (case increment deps (htmlWalker st1) (htmlOutput st1) of
                Inl msg \<Rightarrow> Inl (raise (WalkerRaised msg) st1)
              | Inr (htmlNode, htmlW, htmlOut) \<Rightarrow>
                  let st2 = st1\<lparr>currentHtmlNode := htmlNode, htmlWalker := htmlW,
                                htmlOutput := htmlOut,
                                effects := effects st1 @ [Incremented HTML_RENDERER htmlNode]\<rparr>
                  in (case checkEqual (currentHtmlNode st2) (currentMarkdownNode st2) of
                        Inl err \<Rightarrow> Inl (raise err st2)
                      | Inr ok \<Rightarrow> Inr st2)))"

text \<open>
  The \<^verbatim>\<open>if\<close> block at the head of the loop body (source lines 56 to 64): when some
  stream has a page waiting, both streams are made to start a new page and one event
  is sent.
\<close>

definition sendReadyPages ::
  "('w, 's, 'n) Collaborators \<Rightarrow> ('e, 'c) SendMatrixEventCB
     \<Rightarrow> ('w, 's, 'n, 'e, 'c) RenderState
     \<Rightarrow> ('n, 'e, 'c) RenderOutcome + ('w, 's, 'n, 'e, 'c) RenderState" where
  "sendReadyPages deps cb st =
     (if somePeekPage deps st then sendPage deps cb (ensureNewPages deps st) else Inr st)"

text \<open>The body of the \<^verbatim>\<open>while\<close> loop: that block, then the next pair of increments.\<close>

definition loopBody ::
  "('w, 's, 'n) Collaborators \<Rightarrow> ('e, 'c) SendMatrixEventCB
     \<Rightarrow> ('w, 's, 'n, 'e, 'c) RenderState
     \<Rightarrow> ('n, 'e, 'c) RenderOutcome + ('w, 's, 'n, 'e, 'c) RenderState" where
  "loopBody deps cb st =
     (case sendReadyPages deps cb st of
        Inl failed \<Rightarrow> Inl failed
      | Inr st' \<Rightarrow> incrementBoth deps st')"

text \<open>The statements after the loop: the final flush and the \<^verbatim>\<open>return\<close>.\<close>

definition finalFlush ::
  "('w, 's, 'n) Collaborators \<Rightarrow> ('e, 'c) SendMatrixEventCB
     \<Rightarrow> ('w, 's, 'n, 'e, 'c) RenderState \<Rightarrow> ('n, 'e, 'c) RenderOutcome" where
  "finalFlush deps cb st =
     (let st1 = ensureNewPages deps st;
          done = (\<lambda>s. \<lparr>returned = Inr (eventIds s), collected = eventIds s,
                       cbFinal = cbState s, performed = effects s\<rparr>)
      in if somePeekPage deps st1
         then (case sendPage deps cb st1 of Inl failed \<Rightarrow> failed | Inr st2 \<Rightarrow> done st2)
         else done st1)"

text \<open>
  The \<^verbatim>\<open>while (currentHtmlNode !== undefined)\<close> loop.  Nothing in \<^verbatim>\<open>renderMatrix\<close>
  bounds the number of increments a walker answers with a node, so the loop is a
  partial function: \<open>None\<close> is a run that never returns.
\<close>

partial_function (option) renderLoop ::
  "('w, 's, 'n) Collaborators \<Rightarrow> ('e, 'c) SendMatrixEventCB
     \<Rightarrow> ('w, 's, 'n, 'e, 'c) RenderState \<Rightarrow> ('n, 'e, 'c) RenderOutcome option" where
  "renderLoop deps cb st =
     (if currentHtmlNode st \<noteq> None
      then (case loopBody deps cb st of
              Inl failed \<Rightarrow> Some failed
            | Inr st' \<Rightarrow> renderLoop deps cb st')
      else Some (finalFlush deps cb st))"

declare renderLoop.simps [code]

text \<open>
  \<^verbatim>\<open>renderMatrix(node, cb)\<close>; \<open>c0\<close> is the state of the callback's side at the call.
  The commit hook handed to both walkers calls \<^verbatim>\<open>commit\<close> on the stream of the context.
\<close>

definition commitHook :: "('w, 's, 'n) Collaborators \<Rightarrow> 'n \<Rightarrow> 's \<Rightarrow> 's" where
  "commitHook deps commitNode output = commit deps commitNode output"

text \<open>
  The two streams and walkers constructed and the locals initialised (source lines 36
  to 51), before the first increment.
\<close>

definition constructed ::
  "('w, 's, 'n) Collaborators \<Rightarrow> AbstractNode \<Rightarrow> 'c \<Rightarrow> ('w, 's, 'n, 'e, 'c) RenderState" where
  "constructed deps node c0 =
     (let markdownOutput0 = PagedDuplexStream_new deps None;
          markdownWalker0 = FringeWalker_new deps node MARKDOWN_RENDERER (commitHook deps);
          htmlOutput0 = PagedDuplexStream_new deps None;
          htmlWalker0 = FringeWalker_new deps node HTML_RENDERER (commitHook deps)
      in \<lparr>markdownOutput = markdownOutput0, markdownWalker = markdownWalker0,
          htmlOutput = htmlOutput0, htmlWalker = htmlWalker0,
          eventIds = [], currentMarkdownNode = None, currentHtmlNode = None,
          cbState = c0,
          effects = [StreamConstructed MARKDOWN_RENDERER None,
                     WalkerConstructed MARKDOWN_RENDERER,
                     StreamConstructed HTML_RENDERER None,
                     WalkerConstructed HTML_RENDERER]\<rparr>)"

definition renderMatrix ::
  "('w, 's, 'n) Collaborators \<Rightarrow> AbstractNode \<Rightarrow> ('e, 'c) SendMatrixEventCB \<Rightarrow> 'c
     \<Rightarrow> ('n, 'e, 'c) RenderOutcome option" where
  "renderMatrix deps node cb c0 =
     (if tag node \<noteq> Root
      then Some \<lparr>returned = Inl NoRootError, collected = [], cbFinal = c0, performed = []\<rparr>
      else (case incrementBoth deps (constructed deps node c0) of
              Inl failed \<Rightarrow> Some failed
            | Inr st1 \<Rightarrow> renderLoop deps cb st1))"

section \<open>The paged stream and the fringe walker of the spec\<close>

text \<open>
  Modelled from the spec: the class \<^verbatim>\<open>PagedDuplexStream\<close> is missing from the sources.
  Section 4.3: the stream is constructed with a maximum page size; \<^verbatim>\<open>append\<close> adds to
  the pending (uncommitted) tail; \<^verbatim>\<open>commit\<close> advances the safe cut boundary to the end
  of the pending tail; a page is ready once the committed region's length reaches the
  maximum; \<^verbatim>\<open>ensureNewPage\<close> forces any remaining committed and pending content, even
  below the limit, into a final ready page; \<^verbatim>\<open>readPage\<close> removes and returns the ready
  page, everything up to the best cut boundary at or before the size limit (section 3:
  a page is bounded at or below the maximum size and cut at a node boundary), or
  nothing if no page is ready.  The committed region is kept as the list of the texts
  committed, oldest first: the boundaries between them are the safe cut points.
\<close>

record PagedDuplexStream =
  sizeLimit :: nat
  committed :: "string list"
  pending :: string
  forced :: bool

definition PagedDuplexStream_create :: "nat \<Rightarrow> PagedDuplexStream" where
  "PagedDuplexStream_create limit =
     \<lparr>sizeLimit = limit, committed = [], pending = [], forced = False\<rparr>"

definition PagedDuplexStream_append :: "string \<Rightarrow> PagedDuplexStream \<Rightarrow> PagedDuplexStream" where
  "PagedDuplexStream_append text s = s\<lparr>pending := pending s @ text\<rparr>"

definition PagedDuplexStream_commit :: "'n \<Rightarrow> PagedDuplexStream \<Rightarrow> PagedDuplexStream" where
  "PagedDuplexStream_commit node s =
     s\<lparr>committed := committed s @ [pending s], pending := []\<rparr>"

definition PagedDuplexStream_peekPage :: "PagedDuplexStream \<Rightarrow> bool" where
  "PagedDuplexStream_peekPage s =
     (forced s \<or> sizeLimit s \<le> length (concat (committed s)))"

definition PagedDuplexStream_ensureNewPage :: "PagedDuplexStream \<Rightarrow> PagedDuplexStream" where
  "PagedDuplexStream_ensureNewPage s =
     (let remaining = (if pending s = [] then committed s else committed s @ [pending s])
      in s\<lparr>committed := remaining, pending := [], forced := (concat remaining \<noteq> [])\<rparr>)"

text \<open>
  The best cut boundary at or before the size limit: the longest run of committed texts
  that fits.  A first text that alone exceeds the limit has no boundary within the
  limit; it is not split (a page boundary never falls inside a node's text) and makes a
  page of its own.
\<close>

fun bestCut :: "nat \<Rightarrow> string list \<Rightarrow> nat" where
  "bestCut room [] = 0"
| "bestCut room (t # ts) = (if length t \<le> room then Suc (bestCut (room - length t) ts) else 0)"

definition PagedDuplexStream_readPage ::
  "PagedDuplexStream \<Rightarrow> string option \<times> PagedDuplexStream" where
  "PagedDuplexStream_readPage s =
     (if PagedDuplexStream_peekPage s
      then (let k = max (bestCut (sizeLimit s) (committed s)) (min 1 (length (committed s)))
            in (Some (concat (take k (committed s))),
                s\<lparr>committed := drop k (committed s), forced := False\<rparr>))
      else (None, s))"

text \<open>
  The text a stream holds and has not given out, and the same text in the pieces between
  which a page may be cut once \<^verbatim>\<open>ensureNewPage\<close> has taken the pending tail in.
\<close>

definition unsent :: "PagedDuplexStream \<Rightarrow> string" where
  "unsent s = concat (committed s) @ pending s"

definition pieces :: "PagedDuplexStream \<Rightarrow> string list" where
  "pieces s = (if pending s = [] then committed s else committed s @ [pending s])"

text \<open>
  Texts that make one page: at most one text (a text is never split), or texts whose
  total length is within the limit.  A stream is settled when the texts committed make
  one page, and nearly settled when its pieces but the last do.
\<close>

definition fitsPage :: "nat \<Rightarrow> string list \<Rightarrow> bool" where
  "fitsPage limit texts \<longleftrightarrow> length texts \<le> 1 \<or> length (concat texts) \<le> limit"

definition settled :: "PagedDuplexStream \<Rightarrow> bool" where
  "settled s \<longleftrightarrow> fitsPage (sizeLimit s) (committed s)"

definition nearlySettled :: "PagedDuplexStream \<Rightarrow> bool" where
  "nearlySettled s \<longleftrightarrow> fitsPage (sizeLimit s) (butlast (pieces s))"

text \<open>
  Modelled from the spec: the renderer contract (section 4.2) maps a tag to two optional
  fragment producers, for entering and for leaving a node; a missing producer emits
  nothing.  The two tables \<^verbatim>\<open>MARKDOWN_RENDERER\<close> and \<^verbatim>\<open>HTML_RENDERER\<close> are missing
  from the sources and are parameters here.
\<close>

type_synonym RendererContract =
  "NodeTag \<Rightarrow> (AbstractNode \<Rightarrow> string) option \<times> (AbstractNode \<Rightarrow> string) option"

datatype Phase = Enter | Exit

definition fragment :: "RendererContract \<Rightarrow> Phase \<Rightarrow> AbstractNode \<Rightarrow> string" where
  "fragment table ph node =
     (case (if ph = Enter then fst (table (tag node)) else snd (table (tag node))) of
        None \<Rightarrow> []
      | Some producer \<Rightarrow> producer node)"

text \<open>
  Modelled from the spec: the fringe of a tree (section 4.1) is its depth-first sequence
  of events, every node once on entry and once on exit, after its children.  A node is
  identified by its path from the root (the render cursor of section 3).
\<close>

type_synonym NodePath = "nat list"

fun fringe :: "NodePath \<Rightarrow> AbstractNode \<Rightarrow> (Phase \<times> NodePath \<times> AbstractNode) list"
  and fringeChildren :: "NodePath \<Rightarrow> nat \<Rightarrow> AbstractNode list
     \<Rightarrow> (Phase \<times> NodePath \<times> AbstractNode) list" where
  "fringe p (LeafNode t d) = [(Enter, p, LeafNode t d), (Exit, p, LeafNode t d)]"
| "fringe p (DocumentNode t cs) =
     (Enter, p, DocumentNode t cs) # fringeChildren p 0 cs @ [(Exit, p, DocumentNode t cs)]"
| "fringeChildren p i [] = []"
| "fringeChildren p i (c # cs) = fringe (p @ [i]) c @ fringeChildren p (Suc i) cs"

text \<open>The full single-pass rendering of a tree in one format.\<close>

fun render :: "RendererContract \<Rightarrow> AbstractNode \<Rightarrow> string"
  and renderChildren :: "RendererContract \<Rightarrow> AbstractNode list \<Rightarrow> string" where
  "render table (LeafNode t d) =
     fragment table Enter (LeafNode t d) @ fragment table Exit (LeafNode t d)"
| "render table (DocumentNode t cs) =
     fragment table Enter (DocumentNode t cs) @ renderChildren table cs
       @ fragment table Exit (DocumentNode t cs)"
| "renderChildren table [] = []"
| "renderChildren table (c # cs) = render table c @ renderChildren table cs"

text \<open>The text the events of a fringe produce in one format.\<close>

definition fragments ::
  "RendererContract \<Rightarrow> (Phase \<times> NodePath \<times> AbstractNode) list \<Rightarrow> string" where
  "fragments table events = concat (map (\<lambda>(ph, p, node). fragment table ph node) events)"

text \<open>
  Modelled from the spec: the class \<^verbatim>\<open>FringeWalker\<close> is missing from the sources.
  Section 4.1: one increment processes the next fringe event and returns its node, or
  the terminal marker when no event is left; incrementing again after that is an
  error.  On entry the enter fragment is appended and a leaf is committed; on exit the
  exit fragment is appended and the node is committed.
\<close>

record FringeWalker =
  cursor :: "(Phase \<times> NodePath \<times> AbstractNode) list"
  contract :: RendererContract
  hook :: "NodePath \<Rightarrow> PagedDuplexStream \<Rightarrow> PagedDuplexStream"
  terminated :: bool

definition FringeWalker_create ::
  "AbstractNode \<Rightarrow> RendererContract
     \<Rightarrow> (NodePath \<Rightarrow> PagedDuplexStream \<Rightarrow> PagedDuplexStream) \<Rightarrow> FringeWalker" where
  "FringeWalker_create root table h =
     \<lparr>cursor = fringe [] root, contract = table, hook = h, terminated = False\<rparr>"

definition FringeWalker_increment ::
  "FringeWalker \<Rightarrow> PagedDuplexStream
     \<Rightarrow> string + (NodePath option \<times> FringeWalker \<times> PagedDuplexStream)" where
  "FringeWalker_increment w output =
     (case cursor w of
        [] \<Rightarrow> (if terminated w then Inl ''increment called after the traversal ended''
               else Inr (None, w\<lparr>terminated := True\<rparr>, output))
      | (ph, p, node) # rest \<Rightarrow>
          let written = PagedDuplexStream_append (fragment (contract w) ph node) output
          in Inr (Some p, w\<lparr>cursor := rest\<rparr>,
                  (if ph = Exit \<or> leafNode node then hook w p written else written)))"

text \<open>
  The collaborators of the spec, for a default page size of the stream and the two
  renderer tables.
\<close>

definition specCollaborators ::
  "nat \<Rightarrow> RendererContract \<Rightarrow> RendererContract
     \<Rightarrow> (FringeWalker, PagedDuplexStream, NodePath) Collaborators" where
  "specCollaborators defaultLimit markdown html =
     \<lparr>PagedDuplexStream_new =
        (\<lambda>size. PagedDuplexStream_create (case size of None \<Rightarrow> defaultLimit | Some n \<Rightarrow> n)),
      commit = PagedDuplexStream_commit,
      peekPage = PagedDuplexStream_peekPage,
      ensureNewPage = PagedDuplexStream_ensureNewPage,
      readPage = PagedDuplexStream_readPage,
      FringeWalker_new =
        (\<lambda>node r h. FringeWalker_create node
           (case r of MARKDOWN_RENDERER \<Rightarrow> markdown | HTML_RENDERER \<Rightarrow> html) h),
      increment = FringeWalker_increment\<rparr>"

section \<open>The JSX factory\<close>

text \<open>
  Modelled from the spec: \<^verbatim>\<open>makeDocumentNode\<close>, \<^verbatim>\<open>makeLeafNode\<close> and \<^verbatim>\<open>addChild\<close>
  belong to the missing module \<^verbatim>\<open>DeadDocument\<close>.  Section 3: a node's children are an
  ordered sequence in insertion order, a leaf carries its payload and has no children.
  A new document node has no children; a new leaf is made for a parent and is inserted
  as its last child; \<^verbatim>\<open>addChild\<close> inserts a node as the last child.  The model passes
  the parent and returns it updated.
\<close>

definition makeDocumentNode :: "NodeTag \<Rightarrow> AbstractNode" where
  "makeDocumentNode t = DocumentNode t []"

fun addChild :: "AbstractNode \<Rightarrow> AbstractNode \<Rightarrow> AbstractNode" where
  "addChild (DocumentNode t cs) child = DocumentNode t (cs @ [child])"
| "addChild (LeafNode t d) child = LeafNode t d"

definition makeLeafNode :: "NodeTag \<Rightarrow> AbstractNode \<Rightarrow> string \<Rightarrow> AbstractNode" where
  "makeLeafNode t parent d = addChild parent (LeafNode t d)"

text \<open>
  A raw JSX child as \<^verbatim>\<open>ensureChild\<close> tells them apart: a string, a number, an array,
  an object whose \<^verbatim>\<open>leafNode\<close> field is a boolean (a node), or any other value.
  A number is a value of the runtime, of type \<open>'num\<close> here, and
  \<^verbatim>\<open>Number.prototype.toString\<close> is a function of the runtime, which the model takes as
  a parameter.  Of any other value the model keeps what the two operations that
  \<^verbatim>\<open>ensureChild\<close> performs on it do: reading its property \<^verbatim>\<open>leafNode\<close>, which throws
  for \<^verbatim>\<open>null\<close> and \<^verbatim>\<open>undefined\<close> and may throw in a getter (\<open>Some\<close> of what is
  thrown) or gives a value that is not a boolean (\<open>None\<close>); and
  \<^verbatim>\<open>JSON.stringify(rawChild)\<close> inside the message of the error, which may throw, in a
  \<^verbatim>\<open>toJSON\<close> method for instance (\<open>Inl\<close> of what is thrown), or gives the text put
  into the message (\<open>Inr\<close>).
\<close>

datatype 'x Thrown = TypeError string | OtherError 'x

datatype ('num, 'x) rawJSX =
  JSXString string
  | JSXNumber 'num
  | JSXArray "('num, 'x) rawJSX list"
  | JSXNode AbstractNode
  | JSXOther "'x Thrown option" "'x Thrown + string"

text \<open>
  \<^verbatim>\<open>ensureChild\<close> of \<^verbatim>\<open>JSXFactory\<close>, with the node under construction passed and
  returned; \<open>forEachChild\<close> is \<^verbatim>\<open>forEach(ensureChild)\<close>, which stops at the first
  exception.
\<close>

fun ensureChild ::
    "('num \<Rightarrow> string) \<Rightarrow> AbstractNode \<Rightarrow> ('num, 'x) rawJSX \<Rightarrow> 'x Thrown + AbstractNode"
  and forEachChild ::
    "('num \<Rightarrow> string) \<Rightarrow> AbstractNode \<Rightarrow> ('num, 'x) rawJSX list \<Rightarrow> 'x Thrown + AbstractNode"
  where
  "ensureChild Number_toString node (JSXString rawChild) =
     Inr (makeLeafNode TextNode node rawChild)"
| "ensureChild Number_toString node (JSXNumber rawChild) =
     Inr (makeLeafNode TextNode node (Number_toString rawChild))"
| "ensureChild Number_toString node (JSXArray rawChild) =
     forEachChild Number_toString node rawChild"
| "ensureChild Number_toString node (JSXNode rawChild) = Inr (addChild node rawChild)"
| "ensureChild Number_toString node (JSXOther leafNodeRead stringified) =
     (case leafNodeRead of
        Some thrown \<Rightarrow> Inl thrown
      | None \<Rightarrow>
          (case stringified of
             Inl thrown \<Rightarrow> Inl thrown
           | Inr json \<Rightarrow> Inl (TypeError (''Unexpected raw child '' @ json))))"
| "forEachChild Number_toString node [] = Inr node"
| "forEachChild Number_toString node (rawChild # rest) =
     (case ensureChild Number_toString node rawChild of
        Inl thrown \<Rightarrow> Inl thrown
      | Inr node' \<Rightarrow> forEachChild Number_toString node' rest)"

definition JSXFactory ::
  "('num \<Rightarrow> string) \<Rightarrow> NodeTag \<Rightarrow> 'p \<Rightarrow> ('num, 'x) rawJSX list
     \<Rightarrow> 'x Thrown + AbstractNode" where
  "JSXFactory Number_toString t properties rawChildren =
     forEachChild Number_toString (makeDocumentNode t) rawChildren"

text \<open>
  The children the claim describes, in its words: a string becomes a text leaf with
  that string, a number a text leaf with the text of its \<^verbatim>\<open>toString\<close>, an array is
  flattened in order, a node is taken as it is.  A child that is none of these has no
  children to give: it raises the \<^verbatim>\<open>TypeError\<close> that names it, unless reading it or
  printing it for the message throws first.
\<close>

definition unexpected :: "'x Thrown option \<Rightarrow> 'x Thrown + string \<Rightarrow> 'x Thrown" where
  "unexpected leafNodeRead stringified =
     (case leafNodeRead of
        Some thrown \<Rightarrow> thrown
      | None \<Rightarrow>
          (case stringified of
             Inl thrown \<Rightarrow> thrown
           | Inr json \<Rightarrow> TypeError (''Unexpected raw child '' @ json)))"

fun flattenedChild ::
    "('num \<Rightarrow> string) \<Rightarrow> ('num, 'x) rawJSX \<Rightarrow> 'x Thrown + AbstractNode list"
  and flattenedChildren ::
    "('num \<Rightarrow> string) \<Rightarrow> ('num, 'x) rawJSX list \<Rightarrow> 'x Thrown + AbstractNode list"
  where
  "flattenedChild Number_toString (JSXString s) = Inr [LeafNode TextNode s]"
| "flattenedChild Number_toString (JSXNumber n) = Inr [LeafNode TextNode (Number_toString n)]"
| "flattenedChild Number_toString (JSXArray xs) = flattenedChildren Number_toString xs"
| "flattenedChild Number_toString (JSXNode node) = Inr [node]"
| "flattenedChild Number_toString (JSXOther leafNodeRead stringified) =
     Inl (unexpected leafNodeRead stringified)"
| "flattenedChildren Number_toString [] = Inr []"
| "flattenedChildren Number_toString (x # xs) =
     (case flattenedChild Number_toString x of
        Inl thrown \<Rightarrow> Inl thrown
      | Inr first \<Rightarrow>
          (case flattenedChildren Number_toString xs of
             Inl thrown \<Rightarrow> Inl thrown
           | Inr others \<Rightarrow> Inr (first @ others)))"

section \<open>Reading a run\<close>

text \<open>
  What the steps of a run say: the identifiers of the sends that resolved, the reasons of
  the sends that were rejected, the nodes a walker returned, the pages handed to the
  callback.
\<close>

fun sentIds :: "('n, 'e) Effect list \<Rightarrow> string list" where
  "sentIds [] = []"
| "sentIds (Sent t h (Inr eventId) # tr) = eventId # sentIds tr"
| "sentIds (x # tr) = sentIds tr"

fun rejections :: "('n, 'e) Effect list \<Rightarrow> 'e list" where
  "rejections [] = []"
| "rejections (Sent t h (Inl e) # tr) = e # rejections tr"
| "rejections (x # tr) = rejections tr"

fun nodesVisited :: "Renderer \<Rightarrow> ('n, 'e) Effect list \<Rightarrow> 'n option list" where
  "nodesVisited r [] = []"
| "nodesVisited r (Incremented r' n # tr) =
     (if r' = r then n # nodesVisited r tr else nodesVisited r tr)"
| "nodesVisited r (x # tr) = nodesVisited r tr"

fun pagesSent :: "('n, 'e) Effect list \<Rightarrow> (string option \<times> string option) list" where
  "pagesSent [] = []"
| "pagesSent (Sent t h answer # tr) = (t, h) # pagesSent tr"
| "pagesSent (x # tr) = pagesSent tr"

text \<open>
  The answers recorded with the sends of a run, and what the callback itself answers
  when it is called on a list of pages, one after the other, each call from the state
  the call before left: the answers and the state after the last call.
\<close>

fun answers :: "('n, 'e) Effect list \<Rightarrow> ('e + string) list" where
  "answers [] = []"
| "answers (Sent t h answer # tr) = answer # answers tr"
| "answers (x # tr) = answers tr"

fun callbackRun ::
  "('e, 'c) SendMatrixEventCB \<Rightarrow> 'c \<Rightarrow> (string option \<times> string option) list
     \<Rightarrow> ('e + string) list \<times> 'c" where
  "callbackRun cb c [] = ([], c)"
| "callbackRun cb c (page # pages) =
     (case cb c (fst page) (snd page) of
        (answer, c') \<Rightarrow>
          (case callbackRun cb c' pages of (others, c'') \<Rightarrow> (answer # others, c'')))"

text \<open>The streams constructed in a run, each with the size argument it was given.\<close>

fun streamsConstructed :: "('n, 'e) Effect list \<Rightarrow> (Renderer \<times> nat option) list" where
  "streamsConstructed [] = []"
| "streamsConstructed (StreamConstructed r limit # tr) = (r, limit) # streamsConstructed tr"
| "streamsConstructed (x # tr) = streamsConstructed tr"

text \<open>
  The order of the steps after the constructions.  A block of steps is a pair of
  increments, markdown walker first, or the two reads of a page followed by the send
  of the texts read.  In a spaced sequence of blocks a send is never the first block
  and never follows another send directly: \<open>ok\<close> says whether a send may come next.
\<close>

fun incrementPair :: "('n, 'e) Effect list \<Rightarrow> bool" where
  "incrementPair [Incremented MARKDOWN_RENDERER a, Incremented HTML_RENDERER b] = True"
| "incrementPair block = False"

fun readAndSend :: "('n, 'e) Effect list \<Rightarrow> bool" where
  "readAndSend [PageRead MARKDOWN_RENDERER t, PageRead HTML_RENDERER h, Sent t' h' answer] =
     (t' = t \<and> h' = h)"
| "readAndSend block = False"

fun spaced :: "bool \<Rightarrow> ('n, 'e) Effect list list \<Rightarrow> bool" where
  "spaced ok [] = True"
| "spaced ok (block # blocks) =
     (if incrementPair block then spaced True blocks
      else readAndSend block \<and> ok \<and> spaced False blocks)"

text \<open>
  What the increments of one walker wrote between the sends of a run, replayed on the
  fringe: an increment of the walker writes the fragment of the next event, and the
  text written since the send before is what \<open>pagesWritten\<close> lists for each send.
\<close>

fun pagesWritten ::
  "RendererContract \<Rightarrow> Renderer \<Rightarrow> (Phase \<times> NodePath \<times> AbstractNode) list \<Rightarrow> string
     \<Rightarrow> ('n, 'e) Effect list \<Rightarrow> string list" where
  "pagesWritten table r events written [] = []"
| "pagesWritten table r events written (Incremented r' n # tr) =
     (if r' = r
      then pagesWritten table r (drop 1 events) (written @ fragments table (take 1 events)) tr
      else pagesWritten table r events written tr)"
| "pagesWritten table r events written (Sent t h answer # tr) =
     written # pagesWritten table r events [] tr"
| "pagesWritten table r events written (x # tr) = pagesWritten table r events written tr"

text \<open>
  The four constructions every run on a Root node starts with, and the steps of a run
  cut into blocks after them, the last block being a pair of increments (so that a
  send may follow).
\<close>

definition constructions :: "('n, 'e) Effect list" where
  "constructions =
     [StreamConstructed MARKDOWN_RENDERER None, WalkerConstructed MARKDOWN_RENDERER,
      StreamConstructed HTML_RENDERER None, WalkerConstructed HTML_RENDERER]"

definition blocked :: "('n, 'e) Effect list \<Rightarrow> bool" where
  "blocked tr \<longleftrightarrow>
     (\<exists>blocks. tr =
        constructions @ concat blocks \<and>
        spaced False blocks \<and> blocks \<noteq> [] \<and> incrementPair (last blocks))"

text \<open>
  The text a page argument of the callback carries: \<^verbatim>\<open>readPage()!\<close> of a stream that has
  no page is \<^verbatim>\<open>undefined\<close> and carries nothing.  \<open>richPages\<close> are the html texts of
  the pages handed to the callback, in send order; \<open>plainSent\<close> and \<open>richSent\<close> are the
  concatenations, in send order, of the texts of all pages handed to the callback.
\<close>

fun pageText :: "string option \<Rightarrow> string" where
  "pageText None = []"
| "pageText (Some t) = t"

definition richPages :: "('n, 'e) Effect list \<Rightarrow> string list" where
  "richPages tr = map (\<lambda>page. pageText (snd page)) (pagesSent tr)"

definition plainSent :: "('n, 'e) Effect list \<Rightarrow> string" where
  "plainSent tr = concat (map (\<lambda>page. pageText (fst page)) (pagesSent tr))"

definition richSent :: "('n, 'e) Effect list \<Rightarrow> string" where
  "richSent tr = concat (map (\<lambda>page. pageText (snd page)) (pagesSent tr))"

text \<open>
  What holds of the collaborators of the spec between the steps of a run: the two
  walkers stand at the same event, no stream has a forced page left, and in each format
  the text sent, the text held by the stream and the text still to come make up the
  full rendering.  Whenever the loop is entered, moreover, no walker has ended unless
  the last increment returned the terminal marker.
\<close>

definition specCore ::
  "nat \<Rightarrow> RendererContract \<Rightarrow> RendererContract \<Rightarrow> AbstractNode
     \<Rightarrow> (FringeWalker, PagedDuplexStream, NodePath, 'e, 'c) RenderState \<Rightarrow> bool" where
  "specCore limit markdown html node st \<longleftrightarrow>
     cursor (markdownWalker st) = cursor (htmlWalker st) \<and>
     contract (markdownWalker st) = markdown \<and> contract (htmlWalker st) = html \<and>
     hook (markdownWalker st) = PagedDuplexStream_commit \<and>
     hook (htmlWalker st) = PagedDuplexStream_commit \<and>
     \<not> forced (markdownOutput st) \<and> \<not> forced (htmlOutput st) \<and>
     sizeLimit (markdownOutput st) = limit \<and> sizeLimit (htmlOutput st) = limit \<and>
     plainSent (effects st) @ unsent (markdownOutput st)
       @ fragments markdown (cursor (markdownWalker st)) = render markdown node \<and>
     richSent (effects st) @ unsent (htmlOutput st)
       @ fragments html (cursor (htmlWalker st)) = render html node"

definition specInv ::
  "nat \<Rightarrow> RendererContract \<Rightarrow> RendererContract \<Rightarrow> AbstractNode
     \<Rightarrow> (FringeWalker, PagedDuplexStream, NodePath, 'e, 'c) RenderState \<Rightarrow> bool" where
  "specInv limit markdown html node st \<longleftrightarrow>
     specCore limit markdown html node st \<and>
     (currentHtmlNode st \<noteq> None \<longrightarrow>
        \<not> terminated (markdownWalker st) \<and> \<not> terminated (htmlWalker st)) \<and>
     (currentHtmlNode st = None \<longrightarrow> cursor (htmlWalker st) = [])"

text \<open>
  What holds of the pages of the two streams of the spec: after the send of a loop
  iteration, or when there was none, both streams are settled, the events left end with
  an exit, and nothing is pending once no event is left (\<open>pagesMid\<close>); whenever the
  loop is entered both streams are nearly settled, and settled once the walkers have
  returned the terminal marker (\<open>pagesInv\<close>).
\<close>

definition pagesMid ::
  "(FringeWalker, PagedDuplexStream, NodePath, 'e, 'c) RenderState \<Rightarrow> bool" where
  "pagesMid st \<longleftrightarrow>
     settled (markdownOutput st) \<and> settled (htmlOutput st) \<and>
     (cursor (htmlWalker st) = [] \<or> fst (last (cursor (htmlWalker st))) = Exit) \<and>
     (cursor (htmlWalker st) = [] \<longrightarrow>
        pending (markdownOutput st) = [] \<and> pending (htmlOutput st) = [])"

definition pagesInv ::
  "(FringeWalker, PagedDuplexStream, NodePath, 'e, 'c) RenderState \<Rightarrow> bool" where
  "pagesInv st \<longleftrightarrow>
     nearlySettled (markdownOutput st) \<and> nearlySettled (htmlOutput st) \<and>
     (cursor (htmlWalker st) = [] \<or> fst (last (cursor (htmlWalker st))) = Exit) \<and>
     (cursor (htmlWalker st) = [] \<longrightarrow>
        pending (markdownOutput st) = [] \<and> pending (htmlOutput st) = []) \<and>
     (currentHtmlNode st = None \<longrightarrow>
        settled (markdownOutput st) \<and> settled (htmlOutput st))"

text \<open>
  The bookkeeping that holds whenever the loop is entered, and what it gives for the way
  a run ends.
\<close>

definition traceInv :: "('w, 's, 'n, 'e, 'c) RenderState \<Rightarrow> bool" where
  "traceInv st \<longleftrightarrow>
     eventIds st = sentIds (effects st) \<and> rejections (effects st) = [] \<and>
     nodesVisited MARKDOWN_RENDERER (effects st) = nodesVisited HTML_RENDERER (effects st)"

definition outcomeOk :: "('n, 'e, 'c) RenderOutcome \<Rightarrow> bool" where
  "outcomeOk r \<longleftrightarrow>
     collected r = sentIds (performed r) \<and>
     (case returned r of
        Inr ids \<Rightarrow>
          ids = collected r \<and> rejections (performed r) = [] \<and>
          nodesVisited MARKDOWN_RENDERER (performed r) = nodesVisited HTML_RENDERER (performed r)
      | Inl NoRootError \<Rightarrow> False
      | Inl WalkerBugError \<Rightarrow>
          (\<exists>pre a b. a \<noteq> b \<and>
             performed r = pre @ [Incremented MARKDOWN_RENDERER a, Incremented HTML_RENDERER b] \<and>
             rejections pre = [] \<and>
             nodesVisited MARKDOWN_RENDERER pre = nodesVisited HTML_RENDERER pre)
      | Inl (SendRejected e) \<Rightarrow>
          (\<exists>pre t h.
             performed r = pre @ [PageRead MARKDOWN_RENDERER t, PageRead HTML_RENDERER h,
                                  Sent t h (Inl e)] \<and>
             rejections pre = [] \<and>
             nodesVisited MARKDOWN_RENDERER pre = nodesVisited HTML_RENDERER pre)
      | Inl (WalkerRaised msg) \<Rightarrow>
          rejections (performed r) = [] \<and>
          (\<exists>pre. (performed r = pre \<or> (\<exists>a. performed r = pre @ [Incremented MARKDOWN_RENDERER a])) \<and>
             nodesVisited MARKDOWN_RENDERER pre = nodesVisited HTML_RENDERER pre))"


section \<open>Example inputs\<close>

text \<open>
  Two small renderer tables in the manner of section 4.2 of the spec, the document of
  its section 8, and callbacks that count their calls.
\<close>

fun escapeHtml :: "string \<Rightarrow> string" where
  "escapeHtml [] = []"
| "escapeHtml (c # cs) =
     (if c = CHR ''<'' then ''&lt;'' else if c = CHR ''>'' then ''&gt;''
      else if c = CHR ''&'' then ''&amp;'' else [c]) @ escapeHtml cs"

fun payload :: "AbstractNode \<Rightarrow> string" where
  "payload (LeafNode t d) = d"
| "payload (DocumentNode t cs) = []"

definition exampleMarkdown :: RendererContract where
  "exampleMarkdown t =
     (case t of
        TextNode \<Rightarrow> (Some payload, None)
      | Paragraph \<Rightarrow> (None, Some (\<lambda>n. [CHR 0x0A, CHR 0x0A]))
      | Bold \<Rightarrow> (Some (\<lambda>n. ''**''), Some (\<lambda>n. ''**''))
      | ListItem \<Rightarrow> (Some (\<lambda>n. ''- ''), Some (\<lambda>n. [CHR 0x0A]))
      | _ \<Rightarrow> (None, None))"

definition exampleHtml :: RendererContract where
  "exampleHtml t =
     (case t of
        TextNode \<Rightarrow> (Some (\<lambda>n. escapeHtml (payload n)), None)
      | Paragraph \<Rightarrow> (Some (\<lambda>n. ''<p>''), Some (\<lambda>n. ''</p>''))
      | Bold \<Rightarrow> (Some (\<lambda>n. ''<b>''), Some (\<lambda>n. ''</b>''))
      | ListItem \<Rightarrow> (Some (\<lambda>n. ''<li>''), Some (\<lambda>n. ''</li>''))
      | UnorderedList \<Rightarrow> (Some (\<lambda>n. ''<ul>''), Some (\<lambda>n. ''</ul>''))
      | _ \<Rightarrow> (None, None))"

definition helloWorld :: AbstractNode where
  "helloWorld =
     DocumentNode Root
       [DocumentNode Paragraph [LeafNode TextNode ''hello''],
        DocumentNode Paragraph [LeafNode TextNode ''world'']]"

definition acceptAll :: "(string, nat) SendMatrixEventCB" where
  "acceptAll calls text html = (Inr (''$event'' @ replicate calls (CHR ''+'')), Suc calls)"

definition rejectSecond :: "(string, nat) SendMatrixEventCB" where
  "rejectSecond calls text html =
     (if calls = 1 then Inl ''M_LIMIT_EXCEEDED''
      else Inr (''$event'' @ replicate calls (CHR ''+'')), Suc calls)"

text \<open>
  Pairs of walkers that disagree: the html walker leaves out the events that \<open>keep\<close>
  rejects, the markdown walker visits them all.  Leaving out the exit of every leaf is the
  asymmetry of the spec's open question (one format coalesces the two events of a leaf).
\<close>

definition skewedCollaborators ::
  "(Phase \<times> NodePath \<times> AbstractNode \<Rightarrow> bool) \<Rightarrow> nat \<Rightarrow> RendererContract \<Rightarrow> RendererContract
     \<Rightarrow> (FringeWalker, PagedDuplexStream, NodePath) Collaborators" where
  "skewedCollaborators keep defaultLimit markdown html =
     (specCollaborators defaultLimit markdown html)
       \<lparr>FringeWalker_new :=
          (\<lambda>node r h.
             case r of
               MARKDOWN_RENDERER \<Rightarrow> FringeWalker_create node markdown h
             | HTML_RENDERER \<Rightarrow>
                 (FringeWalker_create node html h)\<lparr>cursor := filter keep (fringe [] node)\<rparr>)\<rparr>"

text \<open>
  A pair of walkers that agree on every node and on no phase: the html walker takes
  every entry for an exit and every exit for an entry.
\<close>

fun otherPhase :: "Phase \<Rightarrow> Phase" where
  "otherPhase Enter = Exit"
| "otherPhase Exit = Enter"

definition turned :: "Phase \<times> NodePath \<times> AbstractNode \<Rightarrow> Phase \<times> NodePath \<times> AbstractNode" where
  "turned event = (case event of (ph, p, node) \<Rightarrow> (otherPhase ph, p, node))"

definition phaseSkewed ::
  "nat \<Rightarrow> RendererContract \<Rightarrow> RendererContract
     \<Rightarrow> (FringeWalker, PagedDuplexStream, NodePath) Collaborators" where
  "phaseSkewed defaultLimit markdown html =
     (specCollaborators defaultLimit markdown html)
       \<lparr>FringeWalker_new :=
          (\<lambda>node r h.
             case r of
               MARKDOWN_RENDERER \<Rightarrow> FringeWalker_create node markdown h
             | HTML_RENDERER \<Rightarrow>
                 (FringeWalker_create node html h)\<lparr>cursor := map turned (fringe [] node)\<rparr>)\<rparr>"

definition samePlaceOtherPhase ::
  "Phase \<times> NodePath \<times> AbstractNode \<Rightarrow> Phase \<times> NodePath \<times> AbstractNode \<Rightarrow> bool" where
  "samePlaceOtherPhase a b \<longleftrightarrow> snd a = snd b \<and> fst a = otherPhase (fst b)"

definition notLeafExit :: "Phase \<times> NodePath \<times> AbstractNode \<Rightarrow> bool" where
  "notLeafExit event = (case event of (ph, p, node) \<Rightarrow> \<not> (ph = Exit \<and> leafNode node))"

definition belowRoot :: "Phase \<times> NodePath \<times> AbstractNode \<Rightarrow> bool" where
  "belowRoot event = (case event of (ph, p, node) \<Rightarrow> p \<noteq> [])"

text \<open>
  The state of the loop on \<open>helloWorld\<close> with a page size of 8, after the third pair
  of increments: the html stream has reached the size, the markdown stream has not.
\<close>

definition afterHello ::
  "(FringeWalker, PagedDuplexStream, NodePath, string, nat) RenderState" where
  "afterHello =
     \<lparr>markdownOutput = \<lparr>sizeLimit = 8, committed = [''hello''], pending = [], forced = False\<rparr>,
      markdownWalker =
        \<lparr>cursor = drop 3 (fringe [] helloWorld), contract = exampleMarkdown,
         hook = PagedDuplexStream_commit, terminated = False\<rparr>,
      htmlOutput = \<lparr>sizeLimit = 8, committed = [''<p>hello''], pending = [], forced = False\<rparr>,
      htmlWalker =
        \<lparr>cursor = drop 3 (fringe [] helloWorld), contract = exampleHtml,
         hook = PagedDuplexStream_commit, terminated = False\<rparr>,
      eventIds = [], currentMarkdownNode = Some [0, 0], currentHtmlNode = Some [0, 0],
      cbState = 0,
      effects = [Incremented MARKDOWN_RENDERER (Some []), Incremented HTML_RENDERER (Some []),
                 Incremented MARKDOWN_RENDERER (Some [0]), Incremented HTML_RENDERER (Some [0]),
                 Incremented MARKDOWN_RENDERER (Some [0, 0]),
                 Incremented HTML_RENDERER (Some [0, 0])]\<rparr>"

text \<open>The same state with an html walker that leaves out the exit of every leaf.\<close>

definition afterHelloSkewed ::
  "(FringeWalker, PagedDuplexStream, NodePath, string, nat) RenderState" where
  "afterHelloSkewed =
     afterHello\<lparr>htmlWalker :=
       (htmlWalker afterHello)\<lparr>cursor := filter notLeafExit (cursor (htmlWalker afterHello))\<rparr>\<rparr>"

text \<open>
  A stream constructor that, unlike the one of \<open>specCollaborators 64\<close>, makes every
  size it is given into 8; with no size given it is the same.
\<close>

definition clampedSizes :: "nat option \<Rightarrow> PagedDuplexStream" where
  "clampedSizes given = PagedDuplexStream_create (case given of None \<Rightarrow> 64 | Some n \<Rightarrow> 8)"

text \<open>
  Some numbers of the runtime with the texts \<^verbatim>\<open>Number.prototype.toString\<close> gives for
  them (ECMAScript, \<^verbatim>\<open>Number::toString\<close> with radix 10): 42, 1.5, -7, 1e21 and NaN.
\<close>

datatype ExampleNumber = FortyTwo | OneAndAHalf | MinusSeven | TenToThe21 | NotANumber

fun exampleToString :: "ExampleNumber \<Rightarrow> string" where
  "exampleToString FortyTwo = ''42''"
| "exampleToString OneAndAHalf = ''1.5''"
| "exampleToString MinusSeven = ''-7''"
| "exampleToString TenToThe21 = ''1e+21''"
| "exampleToString NotANumber = ''NaN''"

section \<open>Properties\<close>

subsection \<open>One rule for the loop\<close>

lemma renderLoop_rule_aux:
  assumes step: "\<And>s s'. Inv s \<Longrightarrow> currentHtmlNode s \<noteq> None \<Longrightarrow> loopBody deps cb s = Inr s' \<Longrightarrow> Inv s'"
    and fail: "\<And>s f. Inv s \<Longrightarrow> currentHtmlNode s \<noteq> None \<Longrightarrow> loopBody deps cb s = Inl f \<Longrightarrow> Q f"
    and fin: "\<And>s. Inv s \<Longrightarrow> currentHtmlNode s = None \<Longrightarrow> Q (finalFlush deps cb s)"
  shows "renderLoop d c st = Some r \<Longrightarrow> d = deps \<longrightarrow> c = cb \<longrightarrow> Inv st \<longrightarrow> Q r"
proof (erule renderLoop.raw_induct[rotated, where P = "\<lambda>d c s y. d = deps \<longrightarrow> c = cb \<longrightarrow> Inv s \<longrightarrow> Q y"])
  fix loop :: "('a, 'b, 'c) Collaborators \<Rightarrow> ('d, 'e) SendMatrixEventCB \<Rightarrow> ('a, 'b, 'c, 'd, 'e) RenderState \<Rightarrow> ('c, 'd, 'e) RenderOutcome option"
  fix d' c' s y
  assume IH: "\<And>d c s y. loop d c s = Some y \<Longrightarrow> d = deps \<longrightarrow> c = cb \<longrightarrow> Inv s \<longrightarrow> Q y"
  assume eq: "(if currentHtmlNode s \<noteq> None
      then case loopBody d' c' s of Inl failed \<Rightarrow> Some failed
           | Inr st' \<Rightarrow> loop d' c' st'
      else Some (finalFlush d' c' s)) = Some y"
  show "d' = deps \<longrightarrow> c' = cb \<longrightarrow> Inv s \<longrightarrow> Q y"
  proof (intro impI)
    assume d: "d' = deps" and c: "c' = cb" and i: "Inv s"
    show "Q y"
    proof (cases "currentHtmlNode s = None")
      case True
      with eq have "y = finalFlush deps cb s" by (simp add: d c)
      with fin[OF i True] show ?thesis by simp
    next
      case False
      show ?thesis
      proof (cases "loopBody deps cb s")
        case (Inl f)
        with eq False have "y = f" by (simp add: d c)
        with fail[OF i False Inl] show ?thesis by simp
      next
        case (Inr s')
        with eq False have "loop deps cb s' = Some y" by (simp add: d c)
        from IH[OF this] step[OF i False Inr] show ?thesis by simp
      qed
    qed
  qed
qed

lemma renderLoop_rule:
  assumes run: "renderLoop deps cb st = Some r"
    and inv: "Inv st"
    and step: "\<And>s s'. Inv s \<Longrightarrow> currentHtmlNode s \<noteq> None \<Longrightarrow> loopBody deps cb s = Inr s' \<Longrightarrow> Inv s'"
    and fail: "\<And>s f. Inv s \<Longrightarrow> currentHtmlNode s \<noteq> None \<Longrightarrow> loopBody deps cb s = Inl f \<Longrightarrow> Q f"
    and fin: "\<And>s. Inv s \<Longrightarrow> currentHtmlNode s = None \<Longrightarrow> Q (finalFlush deps cb s)"
  shows "Q r"
proof -
  have "deps = deps \<longrightarrow> cb = cb \<longrightarrow> Inv st \<longrightarrow> Q r"
  proof (rule renderLoop_rule_aux[where Inv = Inv and Q = Q and deps = deps and cb = cb])
    show "\<And>s s'. Inv s \<Longrightarrow> currentHtmlNode s \<noteq> None \<Longrightarrow> loopBody deps cb s = Inr s' \<Longrightarrow> Inv s'"
      by (rule step)
    show "\<And>s f. Inv s \<Longrightarrow> currentHtmlNode s \<noteq> None \<Longrightarrow> loopBody deps cb s = Inl f \<Longrightarrow> Q f"
      by (rule fail)
    show "\<And>s. Inv s \<Longrightarrow> currentHtmlNode s = None \<Longrightarrow> Q (finalFlush deps cb s)"
      by (rule fin)
    show "renderLoop deps cb st = Some r" by (rule run)
  qed
  with inv show ?thesis by simp
qed

subsection \<open>Steps and bookkeeping\<close>

lemma sentIds_append [simp]: "sentIds (xs @ ys) = sentIds xs @ sentIds ys"
  by (induction xs rule: sentIds.induct) auto

lemma rejections_append [simp]: "rejections (xs @ ys) = rejections xs @ rejections ys"
  by (induction xs rule: rejections.induct) auto

lemma nodesVisited_append [simp]:
  "nodesVisited r (xs @ ys) = nodesVisited r xs @ nodesVisited r ys"
  by (induction r xs rule: nodesVisited.induct) auto

lemma pagesSent_append [simp]: "pagesSent (xs @ ys) = pagesSent xs @ pagesSent ys"
  by (induction xs rule: pagesSent.induct) auto

lemma sendPage_Inl:
  assumes "sendPage deps cb st = Inl failed"
  shows "\<exists>text html e.
           text = fst (readPage deps (markdownOutput st)) \<and>
           html = fst (readPage deps (htmlOutput st)) \<and>
           cb (cbState st) text html = (Inl e, cbFinal failed) \<and>
           returned failed = Inl (SendRejected e) \<and>
           collected failed = eventIds st \<and>
           performed failed = effects st @
             [PageRead MARKDOWN_RENDERER text, PageRead HTML_RENDERER html,
              Sent text html (Inl e)]"
  using assms
  by (auto simp: sendPage_def raise_def Let_def split: prod.splits sum.splits)

lemma sendPage_Inr:
  assumes "sendPage deps cb st = Inr st'"
  shows "\<exists>text html eventId c'.
           text = fst (readPage deps (markdownOutput st)) \<and>
           html = fst (readPage deps (htmlOutput st)) \<and>
           cb (cbState st) text html = (Inr eventId, c') \<and>
           st' = st\<lparr>markdownOutput := snd (readPage deps (markdownOutput st)),
                    htmlOutput := snd (readPage deps (htmlOutput st)),
                    cbState := c',
                    effects := effects st @
                      [PageRead MARKDOWN_RENDERER text, PageRead HTML_RENDERER html,
                       Sent text html (Inr eventId)],
                    eventIds := eventIds st @ [eventId]\<rparr>"
  using assms
  by (auto simp: sendPage_def raise_def Let_def split: prod.splits sum.splits)

lemma incrementBoth_Inr:
  assumes "incrementBoth deps st = Inr st'"
  shows "\<exists>a mdW mdOut htmlW htmlOut.
           increment deps (markdownWalker st) (markdownOutput st) = Inr (a, mdW, mdOut) \<and>
           increment deps (htmlWalker st) (htmlOutput st) = Inr (a, htmlW, htmlOut) \<and>
           st' = st\<lparr>currentMarkdownNode := a, markdownWalker := mdW, markdownOutput := mdOut,
                    effects := effects st @
                      [Incremented MARKDOWN_RENDERER a, Incremented HTML_RENDERER a],
                    currentHtmlNode := a, htmlWalker := htmlW, htmlOutput := htmlOut\<rparr>"
  using assms
  by (auto simp: incrementBoth_def checkEqual_def raise_def Let_def
      split: prod.splits sum.splits if_splits)

lemma incrementBoth_Inl:
  assumes "incrementBoth deps st = Inl failed"
  shows "collected failed = eventIds st \<and> cbFinal failed = cbState st \<and>
         ((\<exists>msg. returned failed = Inl (WalkerRaised msg) \<and>
                 (performed failed = effects st \<or>
                  (\<exists>a. performed failed = effects st @ [Incremented MARKDOWN_RENDERER a]))) \<or>
          (\<exists>a b. a \<noteq> b \<and> returned failed = Inl WalkerBugError \<and>
                 performed failed = effects st @
                   [Incremented MARKDOWN_RENDERER a, Incremented HTML_RENDERER b]))"
  using assms
  by (auto simp: incrementBoth_def checkEqual_def raise_def Let_def
      split: prod.splits sum.splits if_splits)

lemma traceInv_ensureNewPages [simp]: "traceInv (ensureNewPages deps st) = traceInv st"
  by (simp add: traceInv_def ensureNewPages_def)

lemma traceInv_sendPage:
  assumes "traceInv st" and "sendPage deps cb st = Inr st'"
  shows "traceInv st'"
  using sendPage_Inr[OF assms(2)] assms(1)
  by (elim exE conjE) (simp add: traceInv_def)

lemma outcomeOk_sendPage:
  assumes "traceInv st" and "sendPage deps cb st = Inl failed"
  shows "outcomeOk failed"
  using sendPage_Inl[OF assms(2)] assms(1)
  by (elim exE conjE) (simp add: traceInv_def outcomeOk_def)

lemma traceInv_incrementBoth:
  assumes "traceInv st" and "incrementBoth deps st = Inr st'"
  shows "traceInv st'"
  using incrementBoth_Inr[OF assms(2)] assms(1)
  by (elim exE conjE) (simp add: traceInv_def)

lemma outcomeOk_incrementBoth:
  assumes "traceInv st" and "incrementBoth deps st = Inl failed"
  shows "outcomeOk failed"
proof -
  from incrementBoth_Inl[OF assms(2)]
  have c: "collected failed = eventIds st"
    and d: "(\<exists>msg. returned failed = Inl (WalkerRaised msg) \<and>
                 (performed failed = effects st \<or>
                  (\<exists>a. performed failed = effects st @ [Incremented MARKDOWN_RENDERER a]))) \<or>
          (\<exists>a b. a \<noteq> b \<and> returned failed = Inl WalkerBugError \<and>
                 performed failed = effects st @
                   [Incremented MARKDOWN_RENDERER a, Incremented HTML_RENDERER b])"
    by blast+
  from d show ?thesis
  proof
    assume "\<exists>msg. returned failed = Inl (WalkerRaised msg) \<and>
                 (performed failed = effects st \<or>
                  (\<exists>a. performed failed = effects st @ [Incremented MARKDOWN_RENDERER a]))"
    then obtain msg where r: "returned failed = Inl (WalkerRaised msg)"
      and p: "performed failed = effects st \<or>
                  (\<exists>a. performed failed = effects st @ [Incremented MARKDOWN_RENDERER a])"
      by blast
    from p assms(1) c have "collected failed = sentIds (performed failed)"
      and "rejections (performed failed) = []"
      by (auto simp: traceInv_def)
    moreover from p assms(1)
    have "\<exists>pre. (performed failed = pre \<or> (\<exists>a. performed failed = pre @ [Incremented MARKDOWN_RENDERER a])) \<and>
             nodesVisited MARKDOWN_RENDERER pre = nodesVisited HTML_RENDERER pre"
      unfolding traceInv_def by metis
    ultimately show ?thesis using r by (simp add: outcomeOk_def)
  next
    assume "\<exists>a b. a \<noteq> b \<and> returned failed = Inl WalkerBugError \<and>
                 performed failed = effects st @
                   [Incremented MARKDOWN_RENDERER a, Incremented HTML_RENDERER b]"
    with assms(1) c show ?thesis
      by (auto simp: traceInv_def outcomeOk_def)
  qed
qed

lemma traceInv_sendReadyPages:
  assumes "traceInv st" and "sendReadyPages deps cb st = Inr st'"
  shows "traceInv st'"
proof (cases "somePeekPage deps st")
  case False
  with assms show ?thesis by (simp add: sendReadyPages_def)
next
  case True
  with assms(2) have s: "sendPage deps cb (ensureNewPages deps st) = Inr st'"
    by (simp add: sendReadyPages_def)
  from assms(1) have "traceInv (ensureNewPages deps st)" by simp
  from traceInv_sendPage[OF this s] show ?thesis .
qed

lemma outcomeOk_sendReadyPages:
  assumes "traceInv st" and "sendReadyPages deps cb st = Inl failed"
  shows "outcomeOk failed"
proof (cases "somePeekPage deps st")
  case False
  with assms show ?thesis by (simp add: sendReadyPages_def)
next
  case True
  with assms(2) have s: "sendPage deps cb (ensureNewPages deps st) = Inl failed"
    by (simp add: sendReadyPages_def)
  from assms(1) have "traceInv (ensureNewPages deps st)" by simp
  from outcomeOk_sendPage[OF this s] show ?thesis .
qed

lemma traceInv_loopBody:
  assumes "traceInv st" and "loopBody deps cb st = Inr st'"
  shows "traceInv st'"
proof -
  from assms(2) obtain st1 where s: "sendReadyPages deps cb st = Inr st1"
    and i: "incrementBoth deps st1 = Inr st'"
    by (auto simp: loopBody_def split: sum.splits)
  from traceInv_incrementBoth[OF traceInv_sendReadyPages[OF assms(1) s] i] show ?thesis .
qed

lemma outcomeOk_loopBody:
  assumes "traceInv st" and "loopBody deps cb st = Inl failed"
  shows "outcomeOk failed"
proof (cases "sendReadyPages deps cb st")
  case (Inl f)
  with assms(2) have "f = failed" by (simp add: loopBody_def)
  with outcomeOk_sendReadyPages[OF assms(1) Inl] show ?thesis by simp
next
  case (Inr st1)
  with assms(2) have "incrementBoth deps st1 = Inl failed" by (simp add: loopBody_def)
  from outcomeOk_incrementBoth[OF traceInv_sendReadyPages[OF assms(1) Inr] this]
  show ?thesis .
qed

lemma outcomeOk_finalFlush:
  assumes "traceInv st"
  shows "outcomeOk (finalFlush deps cb st)"
proof (cases "somePeekPage deps (ensureNewPages deps st)")
  case False
  with assms show ?thesis
    by (simp add: finalFlush_def Let_def outcomeOk_def traceInv_def ensureNewPages_def)
next
  case True
  show ?thesis
  proof (cases "sendPage deps cb (ensureNewPages deps st)")
    case (Inl failed)
    with True assms outcomeOk_sendPage[OF _ Inl] show ?thesis
      by (simp add: finalFlush_def Let_def)
  next
    case (Inr st2)
    from traceInv_sendPage[OF _ Inr] assms have "traceInv st2" by simp
    with True Inr show ?thesis
      by (simp add: finalFlush_def Let_def outcomeOk_def traceInv_def)
  qed
qed

lemma renderLoop_outcomeOk:
  assumes "renderLoop deps cb st = Some r" and "traceInv st"
  shows "outcomeOk r"
  using assms(1,2)
proof (rule renderLoop_rule[where Inv = traceInv and Q = outcomeOk])
  show "\<And>s s'. traceInv s \<Longrightarrow> currentHtmlNode s \<noteq> None \<Longrightarrow> loopBody deps cb s = Inr s' \<Longrightarrow> traceInv s'"
    by (rule traceInv_loopBody)
  show "\<And>s f. traceInv s \<Longrightarrow> currentHtmlNode s \<noteq> None \<Longrightarrow> loopBody deps cb s = Inl f \<Longrightarrow> outcomeOk f"
    by (rule outcomeOk_loopBody)
  show "\<And>s. traceInv s \<Longrightarrow> currentHtmlNode s = None \<Longrightarrow> outcomeOk (finalFlush deps cb s)"
    by (rule outcomeOk_finalFlush)
qed

lemma renderMatrix_outcomeOk:
  fixes deps :: "('w, 's, 'n) Collaborators" and cb :: "('e, 'c) SendMatrixEventCB"
  assumes "renderMatrix deps node cb c0 = Some r" and "tag node = Root"
  shows "outcomeOk r"
proof -
  have inv0: "traceInv (constructed deps node c0 :: ('w, 's, 'n, 'e, 'c) RenderState)"
    by (simp add: constructed_def traceInv_def)
  show ?thesis
  proof (cases "incrementBoth deps (constructed deps node c0 :: ('w, 's, 'n, 'e, 'c) RenderState)")
    case (Inl failed)
    with assms have "failed = r" by (simp add: renderMatrix_def)
    with outcomeOk_incrementBoth[OF inv0 Inl] show ?thesis by simp
  next
    case (Inr st1)
    with assms have "renderLoop deps cb st1 = Some r" by (simp add: renderMatrix_def)
    from renderLoop_outcomeOk[OF this traceInv_incrementBoth[OF inv0 Inr]] show ?thesis .
  qed
qed

lemma incrementBoth_disagree:
  assumes "increment deps (markdownWalker st) (markdownOutput st) = Inr (a, mdW, mdOut)"
    and "increment deps (htmlWalker st) (htmlOutput st) = Inr (b, htmlW, htmlOut)"
    and "a \<noteq> b"
  shows "incrementBoth deps st =
           Inl \<lparr>returned = Inl WalkerBugError, collected = eventIds st, cbFinal = cbState st,
                performed = effects st @
                  [Incremented MARKDOWN_RENDERER a, Incremented HTML_RENDERER b]\<rparr>"
  using assms by (auto simp: incrementBoth_def checkEqual_def raise_def Let_def)

lemma sendReadyPages_resolved:
  assumes "somePeekPage deps st"
    and "cb (cbState st) (fst (readPage deps (ensureNewPage deps (markdownOutput st))))
           (fst (readPage deps (ensureNewPage deps (htmlOutput st)))) = (Inr eventId, c')"
  shows "sendReadyPages deps cb st =
           Inr (st\<lparr>htmlOutput := snd (readPage deps (ensureNewPage deps (htmlOutput st))),
                   markdownOutput := snd (readPage deps (ensureNewPage deps (markdownOutput st))),
                   cbState := c',
                   effects := effects st @
                     [PageRead MARKDOWN_RENDERER
                        (fst (readPage deps (ensureNewPage deps (markdownOutput st)))),
                      PageRead HTML_RENDERER
                        (fst (readPage deps (ensureNewPage deps (htmlOutput st)))),
                      Sent (fst (readPage deps (ensureNewPage deps (markdownOutput st))))
                        (fst (readPage deps (ensureNewPage deps (htmlOutput st)))) (Inr eventId)],
                   eventIds := eventIds st @ [eventId]\<rparr>)"
  using assms
  by (auto simp: sendReadyPages_def sendPage_def ensureNewPages_def Let_def split: prod.splits)

lemma sendReadyPages_rejected:
  assumes "somePeekPage deps st"
    and "cb (cbState st) (fst (readPage deps (ensureNewPage deps (markdownOutput st))))
           (fst (readPage deps (ensureNewPage deps (htmlOutput st)))) = (Inl e, c')"
  shows "sendReadyPages deps cb st =
           Inl \<lparr>returned = Inl (SendRejected e), collected = eventIds st, cbFinal = c',
                performed = effects st @
                     [PageRead MARKDOWN_RENDERER
                        (fst (readPage deps (ensureNewPage deps (markdownOutput st)))),
                      PageRead HTML_RENDERER
                        (fst (readPage deps (ensureNewPage deps (htmlOutput st)))),
                      Sent (fst (readPage deps (ensureNewPage deps (markdownOutput st))))
                        (fst (readPage deps (ensureNewPage deps (htmlOutput st)))) (Inl e)]\<rparr>"
  using assms
  by (auto simp: sendReadyPages_def sendPage_def ensureNewPages_def raise_def Let_def
      split: prod.splits)


lemma renderLoop_body_failed:
  assumes "currentHtmlNode st \<noteq> None" and "loopBody deps cb st = Inl failed"
  shows "renderLoop deps cb st = Some failed"
  using assms by (subst renderLoop.simps) simp

lemma sent_before_rejection:
  "rejections tr = [] \<Longrightarrow> length (sentIds tr) = length (pagesSent tr)"
  by (induction tr rule: rejections.induct) auto


subsection \<open>The collaborators of the spec\<close>

lemma spec_fields [simp]:
  "PagedDuplexStream_new (specCollaborators D md html) None = PagedDuplexStream_create D"
  "commit (specCollaborators D md html) = PagedDuplexStream_commit"
  "peekPage (specCollaborators D md html) = PagedDuplexStream_peekPage"
  "ensureNewPage (specCollaborators D md html) = PagedDuplexStream_ensureNewPage"
  "readPage (specCollaborators D md html) = PagedDuplexStream_readPage"
  "FringeWalker_new (specCollaborators D md html) node MARKDOWN_RENDERER h = FringeWalker_create node md h"
  "FringeWalker_new (specCollaborators D md html) node HTML_RENDERER h = FringeWalker_create node html h"
  "increment (specCollaborators D md html) = FringeWalker_increment"
  by (simp_all add: specCollaborators_def)

lemma spec_commitHook [simp]:
  "commitHook (specCollaborators D md html) = PagedDuplexStream_commit"
  by (rule ext)+ (simp add: commitHook_def)

lemma fragments_simps [simp]:
  "fragments table [] = []"
  "fragments table ((ph, p, node) # events) = fragment table ph node @ fragments table events"
  "fragments table (xs @ ys) = fragments table xs @ fragments table ys"
  by (simp_all add: fragments_def)

lemma fragments_fringe:
  "fragments table (fringe p node) = render table node"
  "fragments table (fringeChildren p i cs) = renderChildren table cs"
  by (induction p node and p i cs rule: fringe_fringeChildren.induct) simp_all

lemma plainSent_simps [simp]:
  "plainSent [] = []"
  "plainSent (xs @ ys) = plainSent xs @ plainSent ys"
  "plainSent (Sent t h a # tr) = pageText t @ plainSent tr"
  "plainSent (StreamConstructed r limit # tr) = plainSent tr"
  "plainSent (WalkerConstructed r # tr) = plainSent tr"
  "plainSent (Incremented r n # tr) = plainSent tr"
  "plainSent (PageRead r p # tr) = plainSent tr"
  by (simp_all add: plainSent_def)

lemma richSent_simps [simp]:
  "richSent [] = []"
  "richSent (xs @ ys) = richSent xs @ richSent ys"
  "richSent (Sent t h a # tr) = pageText h @ richSent tr"
  "richSent (StreamConstructed r limit # tr) = richSent tr"
  "richSent (WalkerConstructed r # tr) = richSent tr"
  "richSent (Incremented r n # tr) = richSent tr"
  "richSent (PageRead r p # tr) = richSent tr"
  by (simp_all add: richSent_def)

lemma unsent_create [simp]: "unsent (PagedDuplexStream_create D) = []"
  by (simp add: unsent_def PagedDuplexStream_create_def)

lemma unsent_append [simp]: "unsent (PagedDuplexStream_append t s) = unsent s @ t"
  by (simp add: unsent_def PagedDuplexStream_append_def)

lemma unsent_commit [simp]: "unsent (PagedDuplexStream_commit n s) = unsent s"
  by (simp add: unsent_def PagedDuplexStream_commit_def)

lemma stream_fields [simp]:
  "forced (PagedDuplexStream_create D) = False"
  "sizeLimit (PagedDuplexStream_create D) = D"
  "forced (PagedDuplexStream_append t s) = forced s"
  "sizeLimit (PagedDuplexStream_append t s) = sizeLimit s"
  "forced (PagedDuplexStream_commit n s) = forced s"
  "sizeLimit (PagedDuplexStream_commit n s) = sizeLimit s"
  by (simp_all add: PagedDuplexStream_create_def PagedDuplexStream_append_def
      PagedDuplexStream_commit_def)

lemma committed_le_unsent: "length (concat (committed s)) \<le> length (unsent s)"
  by (simp add: unsent_def)

lemma ensureNewPage_facts:
  "unsent (PagedDuplexStream_ensureNewPage s) = unsent s"
  "forced (PagedDuplexStream_ensureNewPage s) = (unsent s \<noteq> [])"
  "pending (PagedDuplexStream_ensureNewPage s) = []"
  "sizeLimit (PagedDuplexStream_ensureNewPage s) = sizeLimit s"
  by (auto simp: PagedDuplexStream_ensureNewPage_def unsent_def Let_def)

lemma unsent_pieces: "concat (pieces s) = unsent s"
  by (simp add: pieces_def unsent_def)

lemma ensureNewPage_pieces:
  "committed (PagedDuplexStream_ensureNewPage s) = pieces s"
  "pending (PagedDuplexStream_ensureNewPage s) = []"
  "forced (PagedDuplexStream_ensureNewPage s) = (unsent s \<noteq> [])"
  "sizeLimit (PagedDuplexStream_ensureNewPage s) = sizeLimit s"
  by (auto simp: PagedDuplexStream_ensureNewPage_def pieces_def unsent_def Let_def)

lemma bestCut_all: "length (concat ts) \<le> room \<Longrightarrow> bestCut room ts = length ts"
  by (induction room ts rule: bestCut.induct) auto

lemma bestCut_prefix:
  "length (concat (take n ts)) \<le> room \<Longrightarrow> n \<le> length ts \<Longrightarrow> n \<le> bestCut room ts"
proof (induction room ts arbitrary: n rule: bestCut.induct)
  case (1 room)
  then show ?case by simp
next
  case (2 room t ts)
  show ?case
  proof (cases n)
    case 0
    then show ?thesis by simp
  next
    case (Suc m)
    with 2(2) have t: "length t \<le> room" and rest: "length (concat (take m ts)) \<le> room - length t"
      by auto
    from 2(3) Suc have "m \<le> length ts" by simp
    from 2(1)[OF t rest this] t Suc show ?thesis by simp
  qed
qed

lemma fitsPage_butlast: "fitsPage limit ts \<Longrightarrow> fitsPage limit (butlast ts)"
proof -
  have "length (concat (butlast ts)) \<le> length (concat ts)"
    by (cases ts rule: rev_cases) auto
  then show "fitsPage limit ts \<Longrightarrow> fitsPage limit (butlast ts)"
    by (auto simp: fitsPage_def)
qed

lemma fitsPage_drop:
  assumes "fitsPage limit (butlast ts)"
  shows "fitsPage limit (drop (max (bestCut limit ts) (min 1 (length ts))) ts)"
proof -
  let ?k = "max (bestCut limit ts) (min 1 (length ts))"
  from assms have "length (butlast ts) \<le> 1 \<or> length (concat (butlast ts)) \<le> limit"
    by (simp add: fitsPage_def)
  then have "length ts - 1 \<le> ?k"
  proof
    assume "length (butlast ts) \<le> 1"
    then have "length ts - 1 \<le> min 1 (length ts)" by simp
    then show ?thesis by simp
  next
    assume "length (concat (butlast ts)) \<le> limit"
    then have "length (concat (take (length ts - 1) ts)) \<le> limit"
      by (simp add: butlast_conv_take)
    from bestCut_prefix[OF this] show ?thesis by simp
  qed
  then have "length (drop ?k ts) \<le> 1" by simp
  then show ?thesis by (simp add: fitsPage_def)
qed

lemma fitsPage_take:
  assumes "fitsPage limit ts"
  shows "take (max (bestCut limit ts) (min 1 (length ts))) ts = ts"
proof -
  from assms have "length ts \<le> max (bestCut limit ts) (min 1 (length ts))"
    by (auto simp: fitsPage_def bestCut_all)
  then show ?thesis by simp
qed

text \<open>What one read after \<open>ensureNewPage\<close> gives and leaves.\<close>

lemma readPage_ensured:
  "pageText (fst (PagedDuplexStream_readPage (PagedDuplexStream_ensureNewPage s)))
     @ unsent (snd (PagedDuplexStream_readPage (PagedDuplexStream_ensureNewPage s))) = unsent s"
  "forced (snd (PagedDuplexStream_readPage (PagedDuplexStream_ensureNewPage s))) = False"
  "sizeLimit (snd (PagedDuplexStream_readPage (PagedDuplexStream_ensureNewPage s))) = sizeLimit s"
  "pending (snd (PagedDuplexStream_readPage (PagedDuplexStream_ensureNewPage s))) = []"
proof -
  let ?e = "PagedDuplexStream_ensureNewPage s"
  let ?k = "max (bestCut (sizeLimit ?e) (committed ?e)) (min 1 (length (committed ?e)))"
  note e = ensureNewPage_pieces[of s]
  have split: "concat (take ?k (committed ?e)) @ concat (drop ?k (committed ?e)) = unsent s"
    unfolding concat_append[symmetric] append_take_drop_id e(1) by (rule unsent_pieces)
  have all: "pageText (fst (PagedDuplexStream_readPage ?e)) @ unsent (snd (PagedDuplexStream_readPage ?e)) = unsent s \<and>
      forced (snd (PagedDuplexStream_readPage ?e)) = False \<and>
      sizeLimit (snd (PagedDuplexStream_readPage ?e)) = sizeLimit s \<and>
      pending (snd (PagedDuplexStream_readPage ?e)) = []"
  proof (cases "PagedDuplexStream_peekPage ?e")
    case True
    then have "PagedDuplexStream_readPage ?e =
        (Some (concat (take ?k (committed ?e))),
         ?e\<lparr>committed := drop ?k (committed ?e), forced := False\<rparr>)"
      by (simp add: PagedDuplexStream_readPage_def Let_def)
    with split e(2,4) show ?thesis by (simp add: unsent_def)
  next
    case False
    then have r: "PagedDuplexStream_readPage ?e = (None, ?e)"
      by (simp add: PagedDuplexStream_readPage_def)
    from False have "\<not> forced ?e" by (simp add: PagedDuplexStream_peekPage_def)
    with r e show ?thesis by (simp add: unsent_def unsent_pieces)
  qed
  from all show
    "pageText (fst (PagedDuplexStream_readPage (PagedDuplexStream_ensureNewPage s)))
       @ unsent (snd (PagedDuplexStream_readPage (PagedDuplexStream_ensureNewPage s))) = unsent s"
    "forced (snd (PagedDuplexStream_readPage (PagedDuplexStream_ensureNewPage s))) = False"
    "sizeLimit (snd (PagedDuplexStream_readPage (PagedDuplexStream_ensureNewPage s))) = sizeLimit s"
    "pending (snd (PagedDuplexStream_readPage (PagedDuplexStream_ensureNewPage s))) = []"
    by simp_all
qed

text \<open>A stream whose pieces fit one page gives all it holds.\<close>

lemma readPage_after_ensureNewPage:
  assumes "fitsPage (sizeLimit s) (pieces s)"
  shows "pageText (fst (PagedDuplexStream_readPage (PagedDuplexStream_ensureNewPage s))) = unsent s"
    and "unsent (snd (PagedDuplexStream_readPage (PagedDuplexStream_ensureNewPage s))) = []"
proof -
  let ?e = "PagedDuplexStream_ensureNewPage s"
  let ?k = "max (bestCut (sizeLimit ?e) (committed ?e)) (min 1 (length (committed ?e)))"
  note e = ensureNewPage_pieces[of s]
  from assms have t: "take ?k (committed ?e) = committed ?e"
    unfolding e by (rule fitsPage_take)
  then have d: "drop ?k (committed ?e) = []"
    by (metis append_take_drop_id self_append_conv)
  have "pageText (fst (PagedDuplexStream_readPage ?e)) = unsent s \<and>
        unsent (snd (PagedDuplexStream_readPage ?e)) = []"
  proof (cases "PagedDuplexStream_peekPage ?e")
    case True
    then have "PagedDuplexStream_readPage ?e =
        (Some (concat (take ?k (committed ?e))),
         ?e\<lparr>committed := drop ?k (committed ?e), forced := False\<rparr>)"
      by (simp add: PagedDuplexStream_readPage_def Let_def)
    with t d e show ?thesis by (simp add: unsent_def unsent_pieces)
  next
    case False
    then have r: "PagedDuplexStream_readPage ?e = (None, ?e)"
      by (simp add: PagedDuplexStream_readPage_def)
    from False have "\<not> forced ?e" by (simp add: PagedDuplexStream_peekPage_def)
    with e have u: "unsent s = []" by simp
    with ensureNewPage_facts(1)[of s] have "unsent ?e = []" by simp
    with r u show ?thesis by simp
  qed
  then show "pageText (fst (PagedDuplexStream_readPage (PagedDuplexStream_ensureNewPage s))) = unsent s"
    and "unsent (snd (PagedDuplexStream_readPage (PagedDuplexStream_ensureNewPage s))) = []"
    by simp_all
qed

lemma fitsPage_small: "length (unsent s) \<le> sizeLimit s \<Longrightarrow> fitsPage (sizeLimit s) (pieces s)"
  by (simp add: fitsPage_def unsent_pieces)

text \<open>The pieces left by a send fit one page; so do those of a stream with no page ready.\<close>

lemma settled_after_read:
  assumes "nearlySettled s"
  shows "settled (snd (PagedDuplexStream_readPage (PagedDuplexStream_ensureNewPage s)))"
proof -
  let ?e = "PagedDuplexStream_ensureNewPage s"
  let ?k = "max (bestCut (sizeLimit ?e) (committed ?e)) (min 1 (length (committed ?e)))"
  note e = ensureNewPage_pieces[of s]
  show ?thesis
  proof (cases "PagedDuplexStream_peekPage ?e")
    case True
    then have "PagedDuplexStream_readPage ?e =
        (Some (concat (take ?k (committed ?e))),
         ?e\<lparr>committed := drop ?k (committed ?e), forced := False\<rparr>)"
      by (simp add: PagedDuplexStream_readPage_def Let_def)
    moreover from assms have "fitsPage (sizeLimit s) (drop ?k (committed ?e))"
      unfolding e nearlySettled_def by (rule fitsPage_drop)
    ultimately show ?thesis by (simp add: settled_def e)
  next
    case False
    then have r: "PagedDuplexStream_readPage ?e = (None, ?e)"
      by (simp add: PagedDuplexStream_readPage_def)
    from False have "\<not> forced ?e" by (simp add: PagedDuplexStream_peekPage_def)
    with e have "unsent s = []" by simp
    then have "fitsPage (sizeLimit s) (pieces s)" by (simp add: fitsPage_small)
    with r e show ?thesis by (simp add: settled_def)
  qed
qed

lemma settled_not_peek:
  "\<not> PagedDuplexStream_peekPage s \<Longrightarrow> settled s"
  by (simp add: PagedDuplexStream_peekPage_def settled_def fitsPage_def)

lemma peekPage_ensureNewPage:
  assumes "0 < sizeLimit s"
  shows "PagedDuplexStream_peekPage (PagedDuplexStream_ensureNewPage s) = (unsent s \<noteq> [])"
proof -
  let ?e = "PagedDuplexStream_ensureNewPage s"
  have u: "unsent ?e = unsent s" and f: "forced ?e = (unsent s \<noteq> [])"
    and p: "pending ?e = []" and l: "sizeLimit ?e = sizeLimit s"
    by (simp_all add: ensureNewPage_facts)
  from u p have c: "concat (committed ?e) = unsent s" by (simp add: unsent_def)
  show ?thesis
    using assms by (auto simp: PagedDuplexStream_peekPage_def f c l)
qed

lemma peekPage_small:
  "\<not> forced s \<Longrightarrow> length (unsent s) < sizeLimit s \<Longrightarrow> \<not> PagedDuplexStream_peekPage s"
  using committed_le_unsent[of s] by (simp add: PagedDuplexStream_peekPage_def)

lemma readPage_ensured_more:
  "pageText (fst (PagedDuplexStream_readPage (PagedDuplexStream_ensureNewPage s)))
     @ unsent (snd (PagedDuplexStream_readPage (PagedDuplexStream_ensureNewPage s))) @ others
   = unsent s @ others"
  using readPage_ensured(1)[of s] by (metis append_assoc)

lemma settled_nearly: "settled s \<Longrightarrow> nearlySettled s"
  using fitsPage_butlast[of "sizeLimit s" "committed s"]
  by (auto simp: settled_def nearlySettled_def pieces_def)

lemma settled_fits: "settled s \<Longrightarrow> pending s = [] \<Longrightarrow> fitsPage (sizeLimit s) (pieces s)"
  by (simp add: settled_def pieces_def)

lemma fringe_ends: "fringe p node \<noteq> [] \<and> fst (last (fringe p node)) = Exit"
  by (cases node) simp_all

lemma increment_event:
  assumes "cursor w = (ph, p, node) # rest" and "hook w = PagedDuplexStream_commit"
  shows "\<exists>out'. FringeWalker_increment w out = Inr (Some p, w\<lparr>cursor := rest\<rparr>, out') \<and>
           unsent out' = unsent out @ fragment (contract w) ph node \<and>
           forced out' = forced out \<and> sizeLimit out' = sizeLimit out \<and>
           (settled out \<longrightarrow> nearlySettled out') \<and> (ph = Exit \<longrightarrow> pending out' = [])"
proof -
  let ?written = "PagedDuplexStream_append (fragment (contract w) ph node) out"
  let ?out' = "if ph = Exit \<or> leafNode node then PagedDuplexStream_commit p ?written else ?written"
  have 1: "FringeWalker_increment w out = Inr (Some p, w\<lparr>cursor := rest\<rparr>, ?out')"
    using assms by (simp add: FringeWalker_increment_def Let_def)
  have 2: "unsent ?out' = unsent out @ fragment (contract w) ph node"
    "forced ?out' = forced out" "sizeLimit ?out' = sizeLimit out"
    by simp_all
  have 3: "nearlySettled ?out'" if "settled out"
    using that fitsPage_butlast[of "sizeLimit out" "committed out"]
    by (auto simp: settled_def nearlySettled_def pieces_def PagedDuplexStream_commit_def
        PagedDuplexStream_append_def)
  have 4: "pending ?out' = []" if "ph = Exit"
    using that by (simp add: PagedDuplexStream_commit_def)
  from 1 2 3 4 show ?thesis by blast
qed

lemma increment_end:
  assumes "cursor w = []" and "\<not> terminated w"
  shows "FringeWalker_increment w out = Inr (None, w\<lparr>terminated := True\<rparr>, out)"
  using assms by (simp add: FringeWalker_increment_def)

lemma specCore_constructed:
  "specCore D md html node (constructed (specCollaborators D md html) node c0)"
  "\<not> terminated (markdownWalker (constructed (specCollaborators D md html) node c0))"
  "\<not> terminated (htmlWalker (constructed (specCollaborators D md html) node c0))"
  by (simp_all add: specCore_def constructed_def FringeWalker_create_def fragments_fringe)

lemma specCoreD:
  assumes "specCore D md html node st"
  shows "cursor (markdownWalker st) = cursor (htmlWalker st)"
    and "contract (markdownWalker st) = md" and "contract (htmlWalker st) = html"
    and "hook (markdownWalker st) = PagedDuplexStream_commit"
    and "hook (htmlWalker st) = PagedDuplexStream_commit"
    and "\<not> forced (markdownOutput st)" and "\<not> forced (htmlOutput st)"
    and "sizeLimit (markdownOutput st) = D" and "sizeLimit (htmlOutput st) = D"
    and "plainSent (effects st) @ unsent (markdownOutput st)
           @ fragments md (cursor (htmlWalker st)) = render md node"
    and "richSent (effects st) @ unsent (htmlOutput st)
           @ fragments html (cursor (htmlWalker st)) = render html node"
  using assms by (auto simp: specCore_def)

lemma specCore_incrementBoth:
  fixes st :: "(FringeWalker, PagedDuplexStream, NodePath, 'e, 'c) RenderState"
  assumes core: "specCore D md html node st"
    and live: "\<not> terminated (markdownWalker st)" "\<not> terminated (htmlWalker st)"
  shows "\<exists>st'. incrementBoth (specCollaborators D md html) st = Inr st' \<and>
           specInv D md html node st' \<and>
           eventIds st' = eventIds st \<and> cbState st' = cbState st \<and>
           pagesSent (effects st') = pagesSent (effects st) \<and>
           sentIds (effects st') = sentIds (effects st) \<and>
           effects st' = effects st @
             [Incremented MARKDOWN_RENDERER (currentHtmlNode st'),
              Incremented HTML_RENDERER (currentHtmlNode st')] \<and>
           cursor (htmlWalker st') = drop 1 (cursor (htmlWalker st)) \<and>
           unsent (markdownOutput st') =
             unsent (markdownOutput st) @ fragments md (take 1 (cursor (htmlWalker st))) \<and>
           unsent (htmlOutput st') =
             unsent (htmlOutput st) @ fragments html (take 1 (cursor (htmlWalker st))) \<and>
           length (cursor (htmlWalker st')) \<le> length (cursor (htmlWalker st)) \<and>
           (currentHtmlNode st' \<noteq> None \<longrightarrow>
              length (cursor (htmlWalker st')) < length (cursor (htmlWalker st))) \<and>
           (pagesMid st \<longrightarrow> pagesInv st')"
proof (cases "cursor (htmlWalker st)")
  case Nil
  with core have mdNil: "cursor (markdownWalker st) = []" by (simp add: specCore_def)
  have 1: "FringeWalker_increment (markdownWalker st) (markdownOutput st) =
      Inr (None, (markdownWalker st)\<lparr>terminated := True\<rparr>, markdownOutput st)"
    by (rule increment_end[OF mdNil live(1)])
  have 2: "FringeWalker_increment (htmlWalker st) (htmlOutput st) =
      Inr (None, (htmlWalker st)\<lparr>terminated := True\<rparr>, htmlOutput st)"
    by (rule increment_end[OF Nil live(2)])
  let ?st' = "st\<lparr>currentMarkdownNode := None,
                  markdownWalker := (markdownWalker st)\<lparr>terminated := True\<rparr>,
                  markdownOutput := markdownOutput st,
                  effects := effects st @
                    [Incremented MARKDOWN_RENDERER None, Incremented HTML_RENDERER None],
                  currentHtmlNode := None,
                  htmlWalker := (htmlWalker st)\<lparr>terminated := True\<rparr>,
                  htmlOutput := htmlOutput st\<rparr>"
  have step: "incrementBoth (specCollaborators D md html) st = Inr ?st'"
    by (simp add: incrementBoth_def 1 2 checkEqual_def Let_def)
  have inv: "specInv D md html node ?st'"
    using core Nil by (auto simp: specInv_def specCore_def)
  have pages: "pagesMid st \<longrightarrow> pagesInv ?st'"
    using Nil by (simp add: pagesMid_def pagesInv_def settled_nearly)
  show ?thesis
    by (rule exI[of _ ?st'], intro conjI pages, rule step, rule inv) (simp_all add: Nil)
next
  case (Cons ev rest)
  obtain ph p n where ev: "ev = (ph, p, n)" by (cases ev) auto
  from core Cons ev have mdC: "cursor (markdownWalker st) = (ph, p, n) # rest"
    and htmlC: "cursor (htmlWalker st) = (ph, p, n) # rest"
    and hooks: "hook (markdownWalker st) = PagedDuplexStream_commit"
      "hook (htmlWalker st) = PagedDuplexStream_commit"
    and contracts: "contract (markdownWalker st) = md" "contract (htmlWalker st) = html"
    by (simp_all add: specCore_def)
  from increment_event[OF mdC hooks(1), of "markdownOutput st"] contracts
  obtain mdOut where 1: "FringeWalker_increment (markdownWalker st) (markdownOutput st) =
        Inr (Some p, (markdownWalker st)\<lparr>cursor := rest\<rparr>, mdOut)"
    and mdU: "unsent mdOut = unsent (markdownOutput st) @ fragment md ph n"
    and mdF: "forced mdOut = forced (markdownOutput st)"
    and mdL: "sizeLimit mdOut = sizeLimit (markdownOutput st)"
    and mdS: "settled (markdownOutput st) \<longrightarrow> nearlySettled mdOut"
    and mdP: "ph = Exit \<longrightarrow> pending mdOut = []"
    by auto
  from increment_event[OF htmlC hooks(2), of "htmlOutput st"] contracts
  obtain htmlOut where 2: "FringeWalker_increment (htmlWalker st) (htmlOutput st) =
        Inr (Some p, (htmlWalker st)\<lparr>cursor := rest\<rparr>, htmlOut)"
    and htmlU: "unsent htmlOut = unsent (htmlOutput st) @ fragment html ph n"
    and htmlF: "forced htmlOut = forced (htmlOutput st)"
    and htmlL: "sizeLimit htmlOut = sizeLimit (htmlOutput st)"
    and htmlS: "settled (htmlOutput st) \<longrightarrow> nearlySettled htmlOut"
    and htmlP: "ph = Exit \<longrightarrow> pending htmlOut = []"
    by auto
  let ?st' = "st\<lparr>currentMarkdownNode := Some p,
                  markdownWalker := (markdownWalker st)\<lparr>cursor := rest\<rparr>,
                  markdownOutput := mdOut,
                  effects := effects st @
                    [Incremented MARKDOWN_RENDERER (Some p), Incremented HTML_RENDERER (Some p)],
                  currentHtmlNode := Some p,
                  htmlWalker := (htmlWalker st)\<lparr>cursor := rest\<rparr>,
                  htmlOutput := htmlOut\<rparr>"
  have step: "incrementBoth (specCollaborators D md html) st = Inr ?st'"
    by (simp add: incrementBoth_def 1 2 checkEqual_def Let_def)
  have inv: "specInv D md html node ?st'"
    using core mdC htmlC live mdU mdF mdL htmlU htmlF htmlL
    by (auto simp: specInv_def specCore_def)
  have pages: "pagesMid st \<longrightarrow> pagesInv ?st'"
  proof
    assume mid: "pagesMid st"
    with htmlC have ends: "fst (last ((ph, p, n) # rest)) = Exit"
      by (simp add: pagesMid_def)
    then have "rest = [] \<or> fst (last rest) = Exit" by (cases "rest = []") simp_all
    moreover from ends mdP htmlP have "rest = [] \<longrightarrow> pending mdOut = [] \<and> pending htmlOut = []"
      by auto
    moreover from mid mdS htmlS have "nearlySettled mdOut" "nearlySettled htmlOut"
      by (simp_all add: pagesMid_def)
    ultimately show "pagesInv ?st'" by (simp add: pagesInv_def)
  qed
  show ?thesis
    by (rule exI[of _ ?st'], intro conjI pages, rule step, rule inv) (simp_all add: htmlC mdU htmlU)
qed

lemma specCore_sendPage:
  fixes st :: "(FringeWalker, PagedDuplexStream, NodePath, 'e, 'c) RenderState"
  assumes core: "specCore D md html node st"
  shows "case sendPage (specCollaborators D md html) cb
                 (ensureNewPages (specCollaborators D md html) st) of
           Inl failed \<Rightarrow>
             (\<exists>e. returned failed = Inl (SendRejected e)) \<and>
             plainSent (performed failed) = plainSent (effects st) @
               pageText (fst (PagedDuplexStream_readPage
                                (PagedDuplexStream_ensureNewPage (markdownOutput st)))) \<and>
             richSent (performed failed) = richSent (effects st) @
               pageText (fst (PagedDuplexStream_readPage
                                (PagedDuplexStream_ensureNewPage (htmlOutput st))))
         | Inr st' \<Rightarrow>
             specCore D md html node st' \<and>
             markdownWalker st' = markdownWalker st \<and> htmlWalker st' = htmlWalker st \<and>
             currentHtmlNode st' = currentHtmlNode st \<and>
             markdownOutput st' =
               snd (PagedDuplexStream_readPage
                      (PagedDuplexStream_ensureNewPage (markdownOutput st))) \<and>
             htmlOutput st' =
               snd (PagedDuplexStream_readPage
                      (PagedDuplexStream_ensureNewPage (htmlOutput st))) \<and>
             pagesSent (effects st') = pagesSent (effects st) @
               [(fst (PagedDuplexStream_readPage
                        (PagedDuplexStream_ensureNewPage (markdownOutput st))),
                 fst (PagedDuplexStream_readPage
                        (PagedDuplexStream_ensureNewPage (htmlOutput st))))] \<and>
             plainSent (effects st') = plainSent (effects st) @
               pageText (fst (PagedDuplexStream_readPage
                                (PagedDuplexStream_ensureNewPage (markdownOutput st)))) \<and>
             richSent (effects st') = richSent (effects st) @
               pageText (fst (PagedDuplexStream_readPage
                                (PagedDuplexStream_ensureNewPage (htmlOutput st))))"
proof -
  let ?deps = "specCollaborators D md html"
  let ?e = "ensureNewPages ?deps st"
  let ?mdR = "PagedDuplexStream_readPage (PagedDuplexStream_ensureNewPage (markdownOutput st))"
  let ?htmlR = "PagedDuplexStream_readPage (PagedDuplexStream_ensureNewPage (htmlOutput st))"
  note c = specCoreD[OF core]
  show ?thesis
  proof (cases "sendPage ?deps cb ?e")
    case (Inl failed)
    from sendPage_Inl[OF Inl] Inl show ?thesis
      by (auto simp: ensureNewPages_def)
  next
    case (Inr st')
    from sendPage_Inr[OF Inr] obtain eventId c' where
      st': "st' = ?e\<lparr>markdownOutput := snd ?mdR, htmlOutput := snd ?htmlR, cbState := c',
                       effects := effects ?e @
                         [PageRead MARKDOWN_RENDERER (fst ?mdR), PageRead HTML_RENDERER (fst ?htmlR),
                          Sent (fst ?mdR) (fst ?htmlR) (Inr eventId)],
                       eventIds := eventIds ?e @ [eventId]\<rparr>"
      by (auto simp: ensureNewPages_def)
    have "specCore D md html node st'"
      unfolding specCore_def st' using c
      by (simp add: ensureNewPages_def readPage_ensured(2,3) readPage_ensured_more)
    moreover have "markdownWalker st' = markdownWalker st" "htmlWalker st' = htmlWalker st"
      "currentHtmlNode st' = currentHtmlNode st"
      "markdownOutput st' = snd ?mdR" "htmlOutput st' = snd ?htmlR"
      unfolding st' by (simp_all add: ensureNewPages_def)
    moreover have "pagesSent (effects st') = pagesSent (effects st) @ [(fst ?mdR, fst ?htmlR)]"
      "plainSent (effects st') = plainSent (effects st) @ pageText (fst ?mdR)"
      "richSent (effects st') = richSent (effects st) @ pageText (fst ?htmlR)"
      unfolding st' by (simp_all add: ensureNewPages_def)
    ultimately show ?thesis using Inr by simp
  qed
qed

lemma specCore_sendReadyPages:
  fixes st :: "(FringeWalker, PagedDuplexStream, NodePath, 'e, 'c) RenderState"
  assumes core: "specCore D md html node st"
    and sent: "sendReadyPages (specCollaborators D md html) cb st = Inr st1"
  shows "specCore D md html node st1 \<and>
         markdownWalker st1 = markdownWalker st \<and> htmlWalker st1 = htmlWalker st \<and>
         currentHtmlNode st1 = currentHtmlNode st"
proof (cases "somePeekPage (specCollaborators D md html) st")
  case False
  with sent core show ?thesis by (simp add: sendReadyPages_def)
next
  case True
  with sent have "sendPage (specCollaborators D md html) cb
                    (ensureNewPages (specCollaborators D md html) st) = Inr st1"
    by (simp add: sendReadyPages_def)
  with specCore_sendPage[OF core, of cb] show ?thesis by simp
qed

lemma pagesMid_sendReadyPages:
  fixes st :: "(FringeWalker, PagedDuplexStream, NodePath, 'e, 'c) RenderState"
  assumes core: "specCore D md html node st" and pages: "pagesInv st"
    and sent: "sendReadyPages (specCollaborators D md html) cb st = Inr st1"
  shows "pagesMid st1"
proof (cases "somePeekPage (specCollaborators D md html) st")
  case False
  with sent have "st1 = st" by (simp add: sendReadyPages_def)
  moreover from False have "settled (markdownOutput st)" "settled (htmlOutput st)"
    by (simp_all add: somePeekPage_def settled_not_peek)
  ultimately show ?thesis using pages by (simp add: pagesMid_def pagesInv_def)
next
  case True
  with sent have "sendPage (specCollaborators D md html) cb
                    (ensureNewPages (specCollaborators D md html) st) = Inr st1"
    by (simp add: sendReadyPages_def)
  with specCore_sendPage[OF core, of cb]
  have "markdownOutput st1 =
          snd (PagedDuplexStream_readPage (PagedDuplexStream_ensureNewPage (markdownOutput st)))"
    and "htmlOutput st1 =
          snd (PagedDuplexStream_readPage (PagedDuplexStream_ensureNewPage (htmlOutput st)))"
    and "htmlWalker st1 = htmlWalker st"
    by simp_all
  with pages show ?thesis
    by (simp add: pagesMid_def pagesInv_def settled_after_read readPage_ensured(4))
qed

lemma specInv_loopBody:
  fixes st :: "(FringeWalker, PagedDuplexStream, NodePath, 'e, 'c) RenderState"
  assumes inv: "specInv D md html node st" and more: "currentHtmlNode st \<noteq> None"
  shows "case sendReadyPages (specCollaborators D md html) cb st of
           Inl failed \<Rightarrow> loopBody (specCollaborators D md html) cb st = Inl failed
         | Inr st1 \<Rightarrow>
             (\<exists>st'. loopBody (specCollaborators D md html) cb st = Inr st' \<and>
                    incrementBoth (specCollaborators D md html) st1 = Inr st' \<and>
                    specInv D md html node st' \<and>
                    length (cursor (htmlWalker st')) \<le> length (cursor (htmlWalker st)) \<and>
                    (currentHtmlNode st' \<noteq> None \<longrightarrow>
                       length (cursor (htmlWalker st')) < length (cursor (htmlWalker st))) \<and>
                    (pagesInv st \<longrightarrow> pagesInv st'))"
proof (cases "sendReadyPages (specCollaborators D md html) cb st")
  case (Inl failed)
  then show ?thesis by (simp add: loopBody_def)
next
  case (Inr st1)
  from inv have core: "specCore D md html node st" by (simp add: specInv_def)
  from specCore_sendReadyPages[OF core Inr]
  have core1: "specCore D md html node st1"
    and same: "markdownWalker st1 = markdownWalker st" "htmlWalker st1 = htmlWalker st"
    by simp_all
  from inv more same have live: "\<not> terminated (markdownWalker st1)" "\<not> terminated (htmlWalker st1)"
    by (simp_all add: specInv_def)
  from specCore_incrementBoth[OF core1 live]
  obtain st' where "incrementBoth (specCollaborators D md html) st1 = Inr st'"
    and "specInv D md html node st'"
    and "length (cursor (htmlWalker st')) \<le> length (cursor (htmlWalker st1))"
    and "currentHtmlNode st' \<noteq> None \<longrightarrow>
              length (cursor (htmlWalker st')) < length (cursor (htmlWalker st1))"
    and "pagesMid st1 \<longrightarrow> pagesInv st'"
    by blast
  moreover have "pagesInv st \<longrightarrow> pagesMid st1"
    using pagesMid_sendReadyPages[OF core _ Inr] by blast
  ultimately show ?thesis using Inr same by (auto simp: loopBody_def)
qed

lemma pagesInv_step:
  fixes st :: "(FringeWalker, PagedDuplexStream, NodePath, 'e, 'c) RenderState"
  assumes "specInv D md html node st" and "pagesInv st" and "currentHtmlNode st \<noteq> None"
    and "loopBody (specCollaborators D md html) cb st = Inr st'"
  shows "pagesInv st'"
  using specInv_loopBody[OF assms(1,3), of cb] assms(2,4)
  by (auto split: sum.splits)

lemma specInv_step:
  fixes st :: "(FringeWalker, PagedDuplexStream, NodePath, 'e, 'c) RenderState"
  assumes "specInv D md html node st" and "currentHtmlNode st \<noteq> None"
    and "loopBody (specCollaborators D md html) cb st = Inr st'"
  shows "specInv D md html node st'"
  using specInv_loopBody[OF assms(1,2), of cb] assms(3)
  by (auto split: sum.splits)

lemma spec_renderLoop_returns:
  fixes st :: "(FringeWalker, PagedDuplexStream, NodePath, 'e, 'c) RenderState"
  assumes "specInv D md html node st"
  shows "\<exists>r. renderLoop (specCollaborators D md html) cb st = Some r"
  using assms
proof (induction "length (cursor (htmlWalker st))" arbitrary: st rule: less_induct)
  case less
  let ?deps = "specCollaborators D md html"
  show ?case
  proof (cases "currentHtmlNode st = None")
    case True
    then show ?thesis by (subst renderLoop.simps) simp
  next
    case False
    show ?thesis
    proof (cases "sendReadyPages ?deps cb st")
      case (Inl failed)
      with specInv_loopBody[OF less.prems False, of cb]
      have "loopBody ?deps cb st = Inl failed" by simp
      with False show ?thesis by (subst renderLoop.simps) simp
    next
      case (Inr st1)
      with specInv_loopBody[OF less.prems False, of cb]
      obtain st' where body: "loopBody ?deps cb st = Inr st'"
        and inv': "specInv D md html node st'"
        and dec: "currentHtmlNode st' \<noteq> None \<longrightarrow>
                       length (cursor (htmlWalker st')) < length (cursor (htmlWalker st))"
        by auto
      have "\<exists>r. renderLoop ?deps cb st' = Some r"
      proof (cases "currentHtmlNode st' = None")
        case True
        then show ?thesis by (subst renderLoop.simps) simp
      next
        case False
        with dec have "length (cursor (htmlWalker st')) < length (cursor (htmlWalker st))"
          by simp
        from less.hyps[OF this inv'] show ?thesis .
      qed
      with body False show ?thesis by (subst renderLoop.simps) simp
    qed
  qed
qed

lemma spec_renderLoop_rule:
  fixes st :: "(FringeWalker, PagedDuplexStream, NodePath, 'e, 'c) RenderState"
  assumes inv: "specInv D md html node st" and extra: "X st"
    and step: "\<And>s s'. specInv D md html node s \<Longrightarrow> X s \<Longrightarrow> currentHtmlNode s \<noteq> None \<Longrightarrow>
                 loopBody (specCollaborators D md html) cb s = Inr s' \<Longrightarrow> X s'"
    and fail: "\<And>s f. specInv D md html node s \<Longrightarrow> X s \<Longrightarrow> currentHtmlNode s \<noteq> None \<Longrightarrow>
                 loopBody (specCollaborators D md html) cb s = Inl f \<Longrightarrow> Q f"
    and fin: "\<And>s. specInv D md html node s \<Longrightarrow> X s \<Longrightarrow> currentHtmlNode s = None \<Longrightarrow>
                 Q (finalFlush (specCollaborators D md html) cb s)"
  shows "\<exists>r. renderLoop (specCollaborators D md html) cb st = Some r \<and> Q r"
proof -
  from spec_renderLoop_returns[OF inv, of cb]
  obtain r where r: "renderLoop (specCollaborators D md html) cb st = Some r" by blast
  have "Q r"
  proof (rule renderLoop_rule[where Inv = "\<lambda>s. specInv D md html node s \<and> X s" and Q = Q, OF r])
    show "specInv D md html node st \<and> X st" using inv extra by simp
    show "\<And>s s'. specInv D md html node s \<and> X s \<Longrightarrow> currentHtmlNode s \<noteq> None \<Longrightarrow>
            loopBody (specCollaborators D md html) cb s = Inr s' \<Longrightarrow>
            specInv D md html node s' \<and> X s'"
      using specInv_step step by blast
    show "\<And>s f. specInv D md html node s \<and> X s \<Longrightarrow> currentHtmlNode s \<noteq> None \<Longrightarrow>
            loopBody (specCollaborators D md html) cb s = Inl f \<Longrightarrow> Q f"
      using fail by blast
    show "\<And>s. specInv D md html node s \<and> X s \<Longrightarrow> currentHtmlNode s = None \<Longrightarrow>
            Q (finalFlush (specCollaborators D md html) cb s)"
      using fin by blast
  qed
  with r show ?thesis by blast
qed

text \<open>The run of renderMatrix on a Root node is the loop from the state after the first pair.\<close>

lemma spec_first_pair:
  fixes cb :: "('e, 'c) SendMatrixEventCB"
  assumes "tag node = Root"
  shows "\<exists>st1 :: (FringeWalker, PagedDuplexStream, NodePath, 'e, 'c) RenderState.
           renderMatrix (specCollaborators D md html) node cb c0 =
             renderLoop (specCollaborators D md html) cb st1 \<and>
           specInv D md html node st1 \<and>
           eventIds st1 = [] \<and> cbState st1 = c0 \<and>
           pagesSent (effects st1) = [] \<and>
           effects st1 =
             [StreamConstructed MARKDOWN_RENDERER None, WalkerConstructed MARKDOWN_RENDERER,
              StreamConstructed HTML_RENDERER None, WalkerConstructed HTML_RENDERER,
              Incremented MARKDOWN_RENDERER (currentHtmlNode st1),
              Incremented HTML_RENDERER (currentHtmlNode st1)] \<and>
           cursor (htmlWalker st1) = drop 1 (fringe [] node) \<and>
           unsent (markdownOutput st1) = fragments md (take 1 (fringe [] node)) \<and>
           unsent (htmlOutput st1) = fragments html (take 1 (fringe [] node)) \<and>
           pagesInv st1"
proof -
  let ?deps = "specCollaborators D md html"
  let ?st0 = "constructed ?deps node c0 :: (FringeWalker, PagedDuplexStream, NodePath, 'e, 'c) RenderState"
  have mid0: "pagesMid ?st0"
    using fringe_ends[of "[]" node]
    by (simp add: pagesMid_def constructed_def settled_def fitsPage_def
        PagedDuplexStream_create_def FringeWalker_create_def)
  from specCore_incrementBoth[OF specCore_constructed(1) specCore_constructed(2) specCore_constructed(3),
        of D md html node c0]
  obtain st1 :: "(FringeWalker, PagedDuplexStream, NodePath, 'e, 'c) RenderState"
    where 1: "incrementBoth ?deps ?st0 = Inr st1"
    and 2: "specInv D md html node st1"
    and 3: "eventIds st1 = eventIds ?st0" "cbState st1 = cbState ?st0"
      "pagesSent (effects st1) = pagesSent (effects ?st0)"
    and 4: "effects st1 = effects ?st0 @
                  [Incremented MARKDOWN_RENDERER (currentHtmlNode st1),
                   Incremented HTML_RENDERER (currentHtmlNode st1)]"
    and 5: "cursor (htmlWalker st1) = drop 1 (cursor (htmlWalker ?st0))"
      "unsent (markdownOutput st1) =
         unsent (markdownOutput ?st0) @ fragments md (take 1 (cursor (htmlWalker ?st0)))"
      "unsent (htmlOutput st1) =
         unsent (htmlOutput ?st0) @ fragments html (take 1 (cursor (htmlWalker ?st0)))"
    and 6: "pagesMid ?st0 \<longrightarrow> pagesInv st1"
    by blast
  from assms 1 have "renderMatrix ?deps node cb c0 = renderLoop ?deps cb st1"
    by (simp add: renderMatrix_def)
  moreover from 3 have "eventIds st1 = []" "cbState st1 = c0" "pagesSent (effects st1) = []"
    by (simp_all add: constructed_def)
  moreover from 4 have "effects st1 =
             [StreamConstructed MARKDOWN_RENDERER None, WalkerConstructed MARKDOWN_RENDERER,
              StreamConstructed HTML_RENDERER None, WalkerConstructed HTML_RENDERER,
              Incremented MARKDOWN_RENDERER (currentHtmlNode st1),
              Incremented HTML_RENDERER (currentHtmlNode st1)]"
    by (simp add: constructed_def)
  moreover from 5 have "cursor (htmlWalker st1) = drop 1 (fringe [] node)"
    "unsent (markdownOutput st1) = fragments md (take 1 (fringe [] node))"
    "unsent (htmlOutput st1) = fragments html (take 1 (fringe [] node))"
    by (simp_all add: constructed_def FringeWalker_create_def)
  moreover from 6 mid0 have "pagesInv st1" by simp
  ultimately show ?thesis using 2 by blast
qed

lemma not_peek_ensured:
  "\<not> PagedDuplexStream_peekPage (PagedDuplexStream_ensureNewPage s) \<Longrightarrow> unsent s = []"
  using ensureNewPage_facts(2)[of s] by (auto simp: PagedDuplexStream_peekPage_def)

lemma finalFlush_cases:
  "(\<not> somePeekPage deps (ensureNewPages deps st) \<and>
      finalFlush deps cb st =
        \<lparr>returned = Inr (eventIds st), collected = eventIds st, cbFinal = cbState st,
         performed = effects st\<rparr>) \<or>
   (somePeekPage deps (ensureNewPages deps st) \<and>
      (case sendPage deps cb (ensureNewPages deps st) of
         Inl failed \<Rightarrow> finalFlush deps cb st = failed
       | Inr st2 \<Rightarrow>
           finalFlush deps cb st =
             \<lparr>returned = Inr (eventIds st2), collected = eventIds st2, cbFinal = cbState st2,
              performed = effects st2\<rparr>))"
  by (simp add: finalFlush_def Let_def ensureNewPages_def split: sum.splits)

lemma spec_loopBody_failed:
  fixes st :: "(FringeWalker, PagedDuplexStream, NodePath, 'e, 'c) RenderState"
  assumes inv: "specInv D md html node st" and more: "currentHtmlNode st \<noteq> None"
    and failed: "loopBody (specCollaborators D md html) cb st = Inl f"
  shows "somePeekPage (specCollaborators D md html) st \<and>
         sendPage (specCollaborators D md html) cb
           (ensureNewPages (specCollaborators D md html) st) = Inl f"
proof -
  from specInv_loopBody[OF inv more, of cb] failed
  have "sendReadyPages (specCollaborators D md html) cb st = Inl f"
    by (auto split: sum.splits)
  then show ?thesis by (auto simp: sendReadyPages_def split: if_splits)
qed


lemma spec_quiet:
  fixes st :: "(FringeWalker, PagedDuplexStream, NodePath, 'e, 'c) RenderState"
  assumes core: "specCore D md html node st"
    and small: "length (render md node) < D" "length (render html node) < D"
  shows "\<not> somePeekPage (specCollaborators D md html) st"
proof -
  note c = specCoreD[OF core]
  from arg_cong[OF c(10), of length] arg_cong[OF c(11), of length] small c(8,9)
  have "length (unsent (markdownOutput st)) < sizeLimit (markdownOutput st)"
    and "length (unsent (htmlOutput st)) < sizeLimit (htmlOutput st)"
    by simp_all
  with c(6,7) show ?thesis
    by (simp add: somePeekPage_def peekPage_small)
qed

lemma quiet_loopBody:
  assumes "\<not> somePeekPage deps st"
  shows "loopBody deps cb st = incrementBoth deps st"
  using assms by (simp add: loopBody_def sendReadyPages_def)

lemma plainSent_no_pages: "pagesSent tr = [] \<Longrightarrow> plainSent tr = [] \<and> richSent tr = []"
  by (simp add: plainSent_def richSent_def)


subsection \<open>The order of the steps\<close>

lemma streamsConstructed_append [simp]:
  "streamsConstructed (xs @ ys) = streamsConstructed xs @ streamsConstructed ys"
  by (induction xs rule: streamsConstructed.induct) auto

lemma sendPage_effects:
  "case sendPage deps cb st of
     Inl failed \<Rightarrow> \<exists>t h answer. performed failed = effects st @
        [PageRead MARKDOWN_RENDERER t, PageRead HTML_RENDERER h, Sent t h answer]
   | Inr st' \<Rightarrow> \<exists>t h answer. effects st' = effects st @
        [PageRead MARKDOWN_RENDERER t, PageRead HTML_RENDERER h, Sent t h answer]"
proof (cases "sendPage deps cb st")
  case (Inl failed)
  from sendPage_Inl[OF Inl] Inl show ?thesis by auto
next
  case (Inr st')
  from sendPage_Inr[OF Inr] obtain t h eventId c' where
    "st' = st\<lparr>markdownOutput := snd (readPage deps (markdownOutput st)),
                    htmlOutput := snd (readPage deps (htmlOutput st)),
                    cbState := c',
                    effects := effects st @
                      [PageRead MARKDOWN_RENDERER t, PageRead HTML_RENDERER h,
                       Sent t h (Inr eventId)],
                    eventIds := eventIds st @ [eventId]\<rparr>"
    by blast
  then have "effects st' = effects st @
        [PageRead MARKDOWN_RENDERER t, PageRead HTML_RENDERER h, Sent t h (Inr eventId)]"
    by simp
  with Inr show ?thesis by auto
qed

lemma sendReadyPages_effects:
  "case sendReadyPages deps cb st of
     Inl failed \<Rightarrow> \<exists>t h answer. performed failed = effects st @
        [PageRead MARKDOWN_RENDERER t, PageRead HTML_RENDERER h, Sent t h answer]
   | Inr st' \<Rightarrow> effects st' = effects st \<or>
       (\<exists>t h answer. effects st' = effects st @
        [PageRead MARKDOWN_RENDERER t, PageRead HTML_RENDERER h, Sent t h answer])"
proof (cases "somePeekPage deps st")
  case False
  then show ?thesis by (simp add: sendReadyPages_def)
next
  case True
  with sendPage_effects[where deps = deps and cb = cb and st = "ensureNewPages deps st"] show ?thesis
    by (auto simp: sendReadyPages_def ensureNewPages_def split: sum.splits)
qed

lemma incrementBoth_effects:
  "case incrementBoth deps st of
     Inl failed \<Rightarrow> performed failed = effects st \<or>
       (\<exists>a. performed failed = effects st @ [Incremented MARKDOWN_RENDERER a]) \<or>
       (\<exists>a b. performed failed = effects st @
          [Incremented MARKDOWN_RENDERER a, Incremented HTML_RENDERER b])
   | Inr st' \<Rightarrow> \<exists>a. effects st' = effects st @
          [Incremented MARKDOWN_RENDERER a, Incremented HTML_RENDERER a]"
proof (cases "incrementBoth deps st")
  case (Inl failed)
  from incrementBoth_Inl[OF Inl] Inl show ?thesis by auto
next
  case (Inr st')
  from incrementBoth_Inr[OF Inr] obtain a mdW mdOut htmlW htmlOut where
    "st' = st\<lparr>currentMarkdownNode := a, markdownWalker := mdW, markdownOutput := mdOut,
                    effects := effects st @
                      [Incremented MARKDOWN_RENDERER a, Incremented HTML_RENDERER a],
                    currentHtmlNode := a, htmlWalker := htmlW, htmlOutput := htmlOut\<rparr>"
    by blast
  then have "effects st' = effects st @
                      [Incremented MARKDOWN_RENDERER a, Incremented HTML_RENDERER a]"
    by simp
  with Inr show ?thesis by auto
qed

lemma finalFlush_effects:
  "performed (finalFlush deps cb st) = effects st \<or>
   (\<exists>t h answer. performed (finalFlush deps cb st) = effects st @
        [PageRead MARKDOWN_RENDERER t, PageRead HTML_RENDERER h, Sent t h answer])"
  using finalFlush_cases[where deps = deps and st = st and cb = cb] sendPage_effects[where deps = deps and cb = cb and st = "ensureNewPages deps st"]
  by (auto simp: ensureNewPages_def split: sum.splits)

lemma loopBody_effects:
  "case loopBody deps cb st of
     Inl failed \<Rightarrow> \<exists>new. performed failed = effects st @ new \<and> streamsConstructed new = []
   | Inr st' \<Rightarrow> \<exists>new. effects st' = effects st @ new \<and> streamsConstructed new = []"
proof (cases "sendReadyPages deps cb st")
  case (Inl failed)
  with sendReadyPages_effects[where deps = deps and cb = cb and st = st] show ?thesis
    by (auto simp: loopBody_def)
next
  case (Inr st1)
  with sendReadyPages_effects[where deps = deps and cb = cb and st = st]
  obtain sent where s: "effects st1 = effects st @ sent" "streamsConstructed sent = []"
    by auto
  show ?thesis
  proof (cases "incrementBoth deps st1")
    case (Inl failed)
    with incrementBoth_effects[where deps = deps and st = st1]
    obtain inc where "performed failed = effects st1 @ inc" "streamsConstructed inc = []"
      by auto
    with s have "performed failed = effects st @ (sent @ inc)"
      "streamsConstructed (sent @ inc) = []"
      by simp_all
    with Inl Inr show ?thesis by (auto simp: loopBody_def)
  next
    case (Inr st')
    with incrementBoth_effects[where deps = deps and st = st1]
    obtain inc where "effects st' = effects st1 @ inc" "streamsConstructed inc = []"
      by auto
    with s have "effects st' = effects st @ (sent @ inc)"
      "streamsConstructed (sent @ inc) = []"
      by simp_all
    with Inr \<open>sendReadyPages deps cb st = Inr st1\<close> show ?thesis by (auto simp: loopBody_def)
  qed
qed


lemma readAndSend_not_pair: "readAndSend b \<Longrightarrow> \<not> incrementPair b"
  by (auto elim!: readAndSend.elims incrementPair.elims)

lemma spaced_snoc_pair:
  "spaced ok blocks \<Longrightarrow> incrementPair b \<Longrightarrow> spaced ok (blocks @ [b])"
  by (induction blocks arbitrary: ok) (auto split: if_splits)

lemma spaced_snoc_send:
  "spaced ok blocks \<Longrightarrow> readAndSend b \<Longrightarrow> blocks \<noteq> [] \<Longrightarrow> incrementPair (last blocks) \<Longrightarrow>
   spaced ok (blocks @ [b])"
proof (induction blocks arbitrary: ok)
  case Nil
  then show ?case by simp
next
  case (Cons a blocks)
  show ?case
  proof (cases "blocks = []")
    case True
    with Cons.prems show ?thesis by (simp add: readAndSend_not_pair)
  next
    case False
    with Cons.prems have l: "incrementPair (last blocks)" by simp
    from Cons.prems(1) have "spaced (incrementPair a) blocks"
      by (auto split: if_splits)
    from Cons.IH[OF this Cons.prems(2) False l] Cons.prems(1)
    show ?thesis by (auto split: if_splits)
  qed
qed

lemma blocked_send:
  assumes "blocked tr"
  shows "\<exists>blocks. tr @ [PageRead MARKDOWN_RENDERER t, PageRead HTML_RENDERER h, Sent t h answer] =
        constructions @ concat blocks \<and>
        spaced False blocks"
proof -
  from assms obtain blocks where b: "tr =
        constructions @ concat blocks"
    "spaced False blocks" "blocks \<noteq> []" "incrementPair (last blocks)"
    by (auto simp: blocked_def)
  let ?b = "[PageRead MARKDOWN_RENDERER t, PageRead HTML_RENDERER h, Sent t h answer]"
  have "spaced False (blocks @ [?b])" by (rule spaced_snoc_send[OF b(2) _ b(3,4)]) simp
  with b(1) show ?thesis
    by (intro exI[of _ "blocks @ [?b]"]) simp
qed

lemma blocked_then_pair:
  assumes "\<exists>blocks. tr =
        constructions @ concat blocks \<and>
        spaced False blocks"
  shows "blocked (tr @ [Incremented MARKDOWN_RENDERER a, Incremented HTML_RENDERER b])"
proof -
  from assms obtain blocks where b: "tr =
        constructions @ concat blocks"
    "spaced False blocks" by auto
  let ?b = "[Incremented MARKDOWN_RENDERER a, Incremented HTML_RENDERER b]"
  have "spaced False (blocks @ [?b])" by (rule spaced_snoc_pair[OF b(2)]) simp
  with b(1) show ?thesis
    unfolding blocked_def by (intro exI[of _ "blocks @ [?b]"]) simp
qed

lemma blocked_weaken:
  "blocked tr \<Longrightarrow> \<exists>blocks. tr =
        constructions @ concat blocks \<and>
        spaced False blocks"
  by (auto simp: blocked_def)

lemma blocked_after_send:
  assumes "blocked tr"
    and "tr' = tr \<or> (\<exists>t h answer. tr' = tr @
        [PageRead MARKDOWN_RENDERER t, PageRead HTML_RENDERER h, Sent t h answer])"
  shows "\<exists>blocks. tr' = constructions @ concat blocks \<and> spaced False blocks"
  using assms(2)
proof
  assume "tr' = tr"
  with blocked_weaken[OF assms(1)] show ?thesis by simp
next
  assume "\<exists>t h answer. tr' = tr @
        [PageRead MARKDOWN_RENDERER t, PageRead HTML_RENDERER h, Sent t h answer]"
  then obtain t h answer where "tr' = tr @
        [PageRead MARKDOWN_RENDERER t, PageRead HTML_RENDERER h, Sent t h answer]" by blast
  with blocked_send[OF assms(1), of t h answer] show ?thesis by simp
qed

lemma renderMatrix_blocks:
  fixes deps :: "('w, 's, 'n) Collaborators" and cb :: "('e, 'c) SendMatrixEventCB"
  assumes root: "tag node = Root" and run: "renderMatrix deps node cb c0 = Some r"
  shows "\<exists>blocks unpaired.
           performed r = constructions @ concat blocks @ unpaired \<and> spaced False blocks \<and>
           (unpaired = [] \<or>
            (\<exists>a msg. unpaired = [Incremented MARKDOWN_RENDERER a] \<and>
                     returned r = Inl (WalkerRaised msg)))"
proof -
  let ?cons = "(constructions :: ('n, 'e) Effect list)"
  let ?P = "\<lambda>tr :: ('n, 'e) Effect list.
              \<exists>blocks. tr = ?cons @ concat blocks \<and> spaced False blocks"
  let ?Q = "\<lambda>r :: ('n, 'e, 'c) RenderOutcome.
              \<exists>blocks unpaired.
                performed r = ?cons @ concat blocks @ unpaired \<and> spaced False blocks \<and>
                (unpaired = [] \<or>
                 (\<exists>a msg. unpaired = [Incremented MARKDOWN_RENDERER a] \<and>
                          returned r = Inl (WalkerRaised msg)))"
  let ?st0 = "constructed deps node c0 :: ('w, 's, 'n, 'e, 'c) RenderState"
  have whole: "?Q f" if "?P (performed f)" for f :: "('n, 'e, 'c) RenderOutcome"
  proof -
    from that obtain blocks where "performed f = ?cons @ concat blocks" "spaced False blocks"
      by blast
    then show ?thesis by (intro exI[of _ blocks] exI[of _ "[]"]) simp
  qed
  have e0: "effects ?st0 = ?cons" by (simp add: constructed_def constructions_def)
  have p0: "?P (effects ?st0)" unfolding e0 by (intro exI[of _ "[]"]) simp
  have inc: "?Q f" if p: "?P (effects s)" and i: "incrementBoth deps s = Inl f"
    for s :: "('w, 's, 'n, 'e, 'c) RenderState" and f
  proof -
    from incrementBoth_Inl[OF i]
    consider (none) "performed f = effects s"
      | (one) a msg where "returned f = Inl (WalkerRaised msg)"
          "performed f = effects s @ [Incremented MARKDOWN_RENDERER a]"
      | (two) a b where "performed f = effects s @
                   [Incremented MARKDOWN_RENDERER a, Incremented HTML_RENDERER b]"
      by blast
    then show ?thesis
    proof cases
      case none
      with p show ?thesis by (intro whole) simp
    next
      case one
      from p obtain blocks where "effects s = ?cons @ concat blocks" "spaced False blocks"
        by blast
      with one show ?thesis
        by (intro exI[of _ blocks] exI[of _ "[Incremented MARKDOWN_RENDERER a]"]) simp
    next
      case two
      with blocked_then_pair[OF p, of a b] show ?thesis
        by (intro whole) (auto dest: blocked_weaken)
    qed
  qed
  have inc': "blocked (effects s')" if "?P (effects s)" "incrementBoth deps s = Inr s'"
    for s s' :: "('w, 's, 'n, 'e, 'c) RenderState"
  proof -
    from incrementBoth_effects[where deps = deps and st = s] that(2)
    obtain a where "effects s' = effects s @
          [Incremented MARKDOWN_RENDERER a, Incremented HTML_RENDERER a]" by auto
    with blocked_then_pair[OF that(1), of a a] show ?thesis by simp
  qed
  show ?thesis
  proof (cases "incrementBoth deps ?st0")
    case (Inl failed)
    with run root have "failed = r" by (simp add: renderMatrix_def)
    with inc[OF p0 Inl] show ?thesis by simp
  next
    case (Inr st1)
    with run root have loop: "renderLoop deps cb st1 = Some r" by (simp add: renderMatrix_def)
    have b1: "blocked (effects st1)" by (rule inc'[OF p0 Inr])
    show ?thesis
    proof (rule renderLoop_rule[where Inv = "\<lambda>s. blocked (effects s)" and Q = ?Q, OF loop b1])
      fix s s' :: "('w, 's, 'n, 'e, 'c) RenderState"
      assume b: "blocked (effects s)" and l: "loopBody deps cb s = Inr s'"
      from l obtain s1 where s1: "sendReadyPages deps cb s = Inr s1"
        and i: "incrementBoth deps s1 = Inr s'"
        by (auto simp: loopBody_def split: sum.splits)
      from sendReadyPages_effects[where deps = deps and cb = cb and st = s] s1
      have "effects s1 = effects s \<or>
       (\<exists>t h answer. effects s1 = effects s @
        [PageRead MARKDOWN_RENDERER t, PageRead HTML_RENDERER h, Sent t h answer])"
        by simp
      with b have "?P (effects s1)"
        by (rule blocked_after_send)
      from inc'[OF this i] show "blocked (effects s')" .
    next
      fix s :: "('w, 's, 'n, 'e, 'c) RenderState" and f
      assume b: "blocked (effects s)" and l: "loopBody deps cb s = Inl f"
      show "?Q f"
      proof (cases "sendReadyPages deps cb s")
        case (Inl failed)
        with l have "failed = f" by (simp add: loopBody_def)
        with sendReadyPages_effects[where deps = deps and cb = cb and st = s] Inl
        obtain t h answer where "performed f = effects s @
          [PageRead MARKDOWN_RENDERER t, PageRead HTML_RENDERER h, Sent t h answer]"
          by auto
        with blocked_send[OF b, of t h answer] show ?thesis by (intro whole) simp
      next
        case (Inr s1)
        with l have i: "incrementBoth deps s1 = Inl f" by (simp add: loopBody_def)
        from sendReadyPages_effects[where deps = deps and cb = cb and st = s] Inr
        have "effects s1 = effects s \<or>
         (\<exists>t h answer. effects s1 = effects s @
          [PageRead MARKDOWN_RENDERER t, PageRead HTML_RENDERER h, Sent t h answer])"
          by simp
        with b have "?P (effects s1)"
          by (rule blocked_after_send)
        from inc[OF this i] show ?thesis .
      qed
    next
      fix s :: "('w, 's, 'n, 'e, 'c) RenderState"
      assume b: "blocked (effects s)"
      from blocked_after_send[OF b finalFlush_effects[where deps = deps and cb = cb and st = s]]
      show "?Q (finalFlush deps cb s)"
        by (intro whole) simp
    qed
  qed
qed

subsection \<open>What the callback is given\<close>

lemma answers_append [simp]: "answers (xs @ ys) = answers xs @ answers ys"
  by (induction xs rule: answers.induct) auto

lemma callbackRun_append:
  "callbackRun cb c (xs @ ys) =
     (case callbackRun cb c xs of
        (first, c') \<Rightarrow> (case callbackRun cb c' ys of (others, c'') \<Rightarrow> (first @ others, c'')))"
  by (induction xs arbitrary: c) (auto split: prod.splits)

lemma callbackRun_send:
  assumes "callbackRun cb c0 (pagesSent tr) = (answers tr, c)" and "cb c t h = (answer, c')"
  shows "callbackRun cb c0
           (pagesSent (tr @ [PageRead MARKDOWN_RENDERER t, PageRead HTML_RENDERER h,
                             Sent t h answer])) =
         (answers (tr @ [PageRead MARKDOWN_RENDERER t, PageRead HTML_RENDERER h,
                          Sent t h answer]), c')"
  using assms by (simp add: callbackRun_append)

lemma callbackRun_sendPage:
  assumes "callbackRun cb c0 (pagesSent (effects st)) = (answers (effects st), cbState st)"
  shows "case sendPage deps cb st of
           Inl failed \<Rightarrow>
             callbackRun cb c0 (pagesSent (performed failed)) =
               (answers (performed failed), cbFinal failed)
         | Inr st' \<Rightarrow>
             callbackRun cb c0 (pagesSent (effects st')) = (answers (effects st'), cbState st')"
proof (cases "sendPage deps cb st")
  case (Inl failed)
  from sendPage_Inl[OF Inl] obtain t h e where
    "cb (cbState st) t h = (Inl e, cbFinal failed)"
    "performed failed = effects st @
       [PageRead MARKDOWN_RENDERER t, PageRead HTML_RENDERER h, Sent t h (Inl e)]"
    by blast
  with callbackRun_send[OF assms this(1)] Inl show ?thesis by simp
next
  case (Inr st')
  from sendPage_Inr[OF Inr] obtain t h eventId c' where
    c: "cb (cbState st) t h = (Inr eventId, c')"
    and st': "st' = st\<lparr>markdownOutput := snd (readPage deps (markdownOutput st)),
                    htmlOutput := snd (readPage deps (htmlOutput st)),
                    cbState := c',
                    effects := effects st @
                      [PageRead MARKDOWN_RENDERER t, PageRead HTML_RENDERER h,
                       Sent t h (Inr eventId)],
                    eventIds := eventIds st @ [eventId]\<rparr>"
    by blast
  from callbackRun_send[OF assms c] Inr show ?thesis unfolding st' by simp
qed

lemma callbackRun_sendReadyPages:
  assumes "callbackRun cb c0 (pagesSent (effects st)) = (answers (effects st), cbState st)"
  shows "case sendReadyPages deps cb st of
           Inl failed \<Rightarrow>
             callbackRun cb c0 (pagesSent (performed failed)) =
               (answers (performed failed), cbFinal failed)
         | Inr st' \<Rightarrow>
             callbackRun cb c0 (pagesSent (effects st')) = (answers (effects st'), cbState st')"
proof (cases "somePeekPage deps st")
  case False
  with assms show ?thesis by (simp add: sendReadyPages_def)
next
  case True
  from assms have "callbackRun cb c0 (pagesSent (effects (ensureNewPages deps st))) =
      (answers (effects (ensureNewPages deps st)), cbState (ensureNewPages deps st))"
    by (simp add: ensureNewPages_def)
  from callbackRun_sendPage[OF this, of deps] True show ?thesis
    by (simp add: sendReadyPages_def)
qed

lemma callbackRun_incrementBoth:
  assumes "callbackRun cb c0 (pagesSent (effects st)) = (answers (effects st), cbState st)"
  shows "case incrementBoth deps st of
           Inl failed \<Rightarrow>
             callbackRun cb c0 (pagesSent (performed failed)) =
               (answers (performed failed), cbFinal failed)
         | Inr st' \<Rightarrow>
             callbackRun cb c0 (pagesSent (effects st')) = (answers (effects st'), cbState st')"
proof (cases "incrementBoth deps st")
  case (Inl failed)
  from incrementBoth_Inl[OF Inl] assms Inl show ?thesis by auto
next
  case (Inr st')
  from incrementBoth_Inr[OF Inr] obtain a mdW mdOut htmlW htmlOut where
    "st' = st\<lparr>currentMarkdownNode := a, markdownWalker := mdW, markdownOutput := mdOut,
                    effects := effects st @
                      [Incremented MARKDOWN_RENDERER a, Incremented HTML_RENDERER a],
                    currentHtmlNode := a, htmlWalker := htmlW, htmlOutput := htmlOut\<rparr>"
    by blast
  with assms Inr show ?thesis by simp
qed

lemma callbackRun_loopBody:
  assumes "callbackRun cb c0 (pagesSent (effects st)) = (answers (effects st), cbState st)"
  shows "case loopBody deps cb st of
           Inl failed \<Rightarrow>
             callbackRun cb c0 (pagesSent (performed failed)) =
               (answers (performed failed), cbFinal failed)
         | Inr st' \<Rightarrow>
             callbackRun cb c0 (pagesSent (effects st')) = (answers (effects st'), cbState st')"
proof (cases "sendReadyPages deps cb st")
  case (Inl failed)
  with callbackRun_sendReadyPages[OF assms, of deps] show ?thesis by (simp add: loopBody_def)
next
  case (Inr st1)
  with callbackRun_sendReadyPages[OF assms, of deps]
  have "callbackRun cb c0 (pagesSent (effects st1)) = (answers (effects st1), cbState st1)"
    by simp
  from callbackRun_incrementBoth[OF this, of deps] Inr show ?thesis by (simp add: loopBody_def)
qed

lemma callbackRun_finalFlush:
  assumes "callbackRun cb c0 (pagesSent (effects st)) = (answers (effects st), cbState st)"
  shows "callbackRun cb c0 (pagesSent (performed (finalFlush deps cb st))) =
           (answers (performed (finalFlush deps cb st)), cbFinal (finalFlush deps cb st))"
proof -
  from assms have e: "callbackRun cb c0 (pagesSent (effects (ensureNewPages deps st))) =
      (answers (effects (ensureNewPages deps st)), cbState (ensureNewPages deps st))"
    by (simp add: ensureNewPages_def)
  from finalFlush_cases[of deps st cb] show ?thesis
  proof
    assume "\<not> somePeekPage deps (ensureNewPages deps st) \<and>
      finalFlush deps cb st =
        \<lparr>returned = Inr (eventIds st), collected = eventIds st, cbFinal = cbState st,
         performed = effects st\<rparr>"
    with assms show ?thesis by simp
  next
    assume "somePeekPage deps (ensureNewPages deps st) \<and>
      (case sendPage deps cb (ensureNewPages deps st) of
         Inl failed \<Rightarrow> finalFlush deps cb st = failed
       | Inr st2 \<Rightarrow>
           finalFlush deps cb st =
             \<lparr>returned = Inr (eventIds st2), collected = eventIds st2, cbFinal = cbState st2,
              performed = effects st2\<rparr>)"
    with callbackRun_sendPage[OF e, of deps] show ?thesis
      by (auto split: sum.splits)
  qed
qed

lemma renderMatrix_callbackRun:
  fixes deps :: "('w, 's, 'n) Collaborators" and cb :: "('e, 'c) SendMatrixEventCB"
  assumes run: "renderMatrix deps node cb c0 = Some r"
  shows "callbackRun cb c0 (pagesSent (performed r)) = (answers (performed r), cbFinal r)"
proof (cases "tag node = Root")
  case False
  with run show ?thesis by (auto simp: renderMatrix_def)
next
  case True
  let ?st0 = "constructed deps node c0 :: ('w, 's, 'n, 'e, 'c) RenderState"
  let ?Inv = "\<lambda>s :: ('w, 's, 'n, 'e, 'c) RenderState.
                callbackRun cb c0 (pagesSent (effects s)) = (answers (effects s), cbState s)"
  let ?Q = "\<lambda>r :: ('n, 'e, 'c) RenderOutcome.
              callbackRun cb c0 (pagesSent (performed r)) = (answers (performed r), cbFinal r)"
  have inv0: "?Inv ?st0" by (simp add: constructed_def)
  show ?thesis
  proof (cases "incrementBoth deps ?st0")
    case (Inl failed)
    with run True have "failed = r" by (simp add: renderMatrix_def)
    with callbackRun_incrementBoth[OF inv0, of deps] Inl show ?thesis by simp
  next
    case (Inr st1)
    with run True have loop: "renderLoop deps cb st1 = Some r" by (simp add: renderMatrix_def)
    from callbackRun_incrementBoth[OF inv0, of deps] Inr have inv1: "?Inv st1" by simp
    show ?thesis
    proof (rule renderLoop_rule[where Inv = ?Inv and Q = ?Q, OF loop inv1])
      fix s s' :: "('w, 's, 'n, 'e, 'c) RenderState"
      assume "?Inv s" and "loopBody deps cb s = Inr s'"
      with callbackRun_loopBody[of cb c0 s deps] show "?Inv s'" by simp
    next
      fix s :: "('w, 's, 'n, 'e, 'c) RenderState" and f
      assume "?Inv s" and "loopBody deps cb s = Inl f"
      with callbackRun_loopBody[of cb c0 s deps] show "?Q f" by simp
    next
      fix s :: "('w, 's, 'n, 'e, 'c) RenderState"
      assume "?Inv s"
      then show "?Q (finalFlush deps cb s)" by (rule callbackRun_finalFlush)
    qed
  qed
qed

subsection \<open>What the run takes from the stream constructor\<close>

lemma renderLoop_same_aux:
  assumes body: "\<And>s. loopBody d' cb s = loopBody d cb s"
    and flush: "\<And>s. finalFlush d' cb s = finalFlush d cb s"
  shows "renderLoop x c st = Some r \<Longrightarrow> x = d' \<longrightarrow> c = cb \<longrightarrow> renderLoop d cb st = Some r"
proof (erule renderLoop.raw_induct[rotated, where P = "\<lambda>x c s y. x = d' \<longrightarrow> c = cb \<longrightarrow> renderLoop d cb s = Some y"])
  fix loop :: "('a, 'b, 'c) Collaborators \<Rightarrow> ('d, 'e) SendMatrixEventCB \<Rightarrow> ('a, 'b, 'c, 'd, 'e) RenderState \<Rightarrow> ('c, 'd, 'e) RenderOutcome option"
  fix x c s y
  assume IH: "\<And>x c s y. loop x c s = Some y \<Longrightarrow> x = d' \<longrightarrow> c = cb \<longrightarrow> renderLoop d cb s = Some y"
  assume eq: "(if currentHtmlNode s \<noteq> None
      then case loopBody x c s of Inl failed \<Rightarrow> Some failed
           | Inr st' \<Rightarrow> loop x c st'
      else Some (finalFlush x c s)) = Some y"
  show "x = d' \<longrightarrow> c = cb \<longrightarrow> renderLoop d cb s = Some y"
  proof (intro impI)
    assume x: "x = d'" and c: "c = cb"
    show "renderLoop d cb s = Some y"
    proof (cases "currentHtmlNode s = None")
      case True
      with eq have "y = finalFlush d cb s" by (simp add: x c flush)
      with True show ?thesis by (subst renderLoop.simps) simp
    next
      case False
      show ?thesis
      proof (cases "loopBody d cb s")
        case (Inl f)
        with eq False have "y = f" by (simp add: x c body)
        with False Inl show ?thesis by (subst renderLoop.simps) simp
      next
        case (Inr s')
        with eq False have "loop d' cb s' = Some y" by (simp add: x c body)
        from IH[OF this] have "renderLoop d cb s' = Some y" by simp
        with False Inr show ?thesis by (subst renderLoop.simps) simp
      qed
    qed
  qed
qed

lemma renderLoop_same:
  assumes body: "\<And>s. loopBody d' cb s = loopBody d cb s"
    and flush: "\<And>s. finalFlush d' cb s = finalFlush d cb s"
  shows "renderLoop d' cb st = renderLoop d cb st"
proof (cases "renderLoop d' cb st")
  case (Some r)
  from renderLoop_same_aux[where d' = d' and d = d and cb = cb, OF body flush Some] Some
  show ?thesis by simp
next
  case None
  show ?thesis
  proof (cases "renderLoop d cb st")
    case None
    with \<open>renderLoop d' cb st = None\<close> show ?thesis by simp
  next
    case (Some r)
    from renderLoop_same_aux[where d' = d and d = d' and cb = cb, OF body[symmetric] flush[symmetric] Some]
    have "renderLoop d' cb st = Some r" by simp
    with None show ?thesis by simp
  qed
qed

lemma without_constructor:
  "incrementBoth (deps\<lparr>PagedDuplexStream_new := f\<rparr>) st = incrementBoth deps st"
  "loopBody (deps\<lparr>PagedDuplexStream_new := f\<rparr>) cb st = loopBody deps cb st"
  "finalFlush (deps\<lparr>PagedDuplexStream_new := f\<rparr>) cb st = finalFlush deps cb st"
  by (simp_all add: incrementBoth_def loopBody_def finalFlush_def sendReadyPages_def
      sendPage_def ensureNewPages_def somePeekPage_def
      cong: sum.case_cong prod.case_cong if_cong)

lemma constructed_with_no_size:
  assumes "f None = PagedDuplexStream_new deps None"
  shows "constructed (deps\<lparr>PagedDuplexStream_new := f\<rparr>) node c0 = constructed deps node c0"
proof -
  have "commitHook (deps\<lparr>PagedDuplexStream_new := f\<rparr>) = commitHook deps"
    by (rule ext)+ (simp add: commitHook_def)
  with assms show ?thesis by (simp add: constructed_def)
qed

lemma renderMatrix_with_no_size:
  fixes deps :: "('w, 's, 'n) Collaborators" and cb :: "('e, 'c) SendMatrixEventCB"
  assumes "f None = PagedDuplexStream_new deps None"
  shows "renderMatrix (deps\<lparr>PagedDuplexStream_new := f\<rparr>) node cb c0 = renderMatrix deps node cb c0"
proof -
  have loop: "renderLoop (deps\<lparr>PagedDuplexStream_new := f\<rparr>) cb st = renderLoop deps cb st"
    for st :: "('w, 's, 'n, 'e, 'c) RenderState"
    by (rule renderLoop_same) (simp_all add: without_constructor)
  show ?thesis
    unfolding renderMatrix_def
    by (simp add: constructed_with_no_size[where f = f and deps = deps, OF assms]
        without_constructor(1) loop cong: sum.case_cong)
qed

subsection \<open>The root precondition\<close>

text \<open>
  C1.  A node whose tag is not Root makes \<^verbatim>\<open>renderMatrix\<close> raise its structural error
  with nothing done: no stream or walker constructed, no increment, no page read, no
  send, the callback's side untouched.  A node whose tag is Root never gets that error.
\<close>

theorem renderMatrix_requires_root:
  fixes deps :: "('w, 's, 'n) Collaborators" and cb :: "('e, 'c) SendMatrixEventCB"
  shows "(tag node \<noteq> Root \<longrightarrow>
            renderMatrix deps node cb c0 =
              Some \<lparr>returned = Inl NoRootError, collected = [], cbFinal = c0, performed = []\<rparr>) \<and>
         (tag node = Root \<longrightarrow>
            (\<forall>r. renderMatrix deps node cb c0 = Some r \<longrightarrow> returned r \<noteq> Inl NoRootError))"
proof (intro conjI impI allI)
  assume "tag node \<noteq> Root"
  then show "renderMatrix deps node cb c0 =
      Some \<lparr>returned = Inl NoRootError, collected = [], cbFinal = c0, performed = []\<rparr>"
    by (simp add: renderMatrix_def)
next
  fix r
  assume "tag node = Root" and "renderMatrix deps node cb c0 = Some r"
  from renderMatrix_outcomeOk[OF this(2) this(1)]
  show "returned r \<noteq> Inl NoRootError"
    by (auto simp: outcomeOk_def)
qed

theorem renderMatrix_requires_root_witness:
  "renderMatrix (specCollaborators 64 exampleMarkdown exampleHtml)
       (DocumentNode Fragment [LeafNode TextNode ''hello'']) acceptAll 0 =
     Some \<lparr>returned = Inl NoRootError, collected = [], cbFinal = 0, performed = []\<rparr> \<and>
   (\<exists>r. renderMatrix (specCollaborators 64 exampleMarkdown exampleHtml) helloWorld acceptAll 0
          = Some r \<and> returned r \<noteq> Inl NoRootError)"
proof -
  have run: "renderMatrix (specCollaborators 64 exampleMarkdown exampleHtml) helloWorld acceptAll 0
      \<noteq> None"
    by code_simp
  have root: "tag helloWorld = Root" by (simp add: helloWorld_def)
  have other: "tag (DocumentNode Fragment [LeafNode TextNode ''hello'']) \<noteq> Root" by simp
  from renderMatrix_requires_root
         [of "DocumentNode Fragment [LeafNode TextNode ''hello'']"
             "specCollaborators 64 exampleMarkdown exampleHtml" acceptAll 0]
       renderMatrix_requires_root
         [of helloWorld "specCollaborators 64 exampleMarkdown exampleHtml" acceptAll 0]
       run root other
  show ?thesis by auto
qed

subsection \<open>Sending a ready page\<close>

text \<open>
  C2.  In the loop, when the markdown stream or the html stream reports a ready page,
  both streams are made to start a new page and are read, whether or not each had
  reached its size; the callback is called once, with the two texts read; when it
  resolves, its identifier is appended to \<^verbatim>\<open>eventIds\<close>; the walkers are untouched and
  the iteration goes on with the next pair of increments.
\<close>

theorem ready_page_sent_from_both_streams:
  fixes deps :: "('w, 's, 'n) Collaborators" and cb :: "('e, 'c) SendMatrixEventCB"
  assumes ready: "peekPage deps (markdownOutput st) \<or> peekPage deps (htmlOutput st)"
    and plain: "plainPage = fst (readPage deps (ensureNewPage deps (markdownOutput st)))"
    and rich: "richPage = fst (readPage deps (ensureNewPage deps (htmlOutput st)))"
    and answer: "cb (cbState st) plainPage richPage = (Inr eventId, c')"
  shows "\<exists>sent.
           sendReadyPages deps cb st = Inr sent \<and>
           markdownOutput sent = snd (readPage deps (ensureNewPage deps (markdownOutput st))) \<and>
           htmlOutput sent = snd (readPage deps (ensureNewPage deps (htmlOutput st))) \<and>
           effects sent = effects st @
             [PageRead MARKDOWN_RENDERER plainPage, PageRead HTML_RENDERER richPage,
              Sent plainPage richPage (Inr eventId)] \<and>
           eventIds sent = eventIds st @ [eventId] \<and>
           cbState sent = c' \<and>
           markdownWalker sent = markdownWalker st \<and> htmlWalker sent = htmlWalker st \<and>
           loopBody deps cb st = incrementBoth deps sent \<and>
           (currentHtmlNode st \<noteq> None \<longrightarrow>
              renderLoop deps cb st =
                (case incrementBoth deps sent of
                   Inl failed \<Rightarrow> Some failed
                 | Inr st' \<Rightarrow> renderLoop deps cb st'))"
proof -
  from ready have peek: "somePeekPage deps st" by (auto simp: somePeekPage_def)
  from answer have "cb (cbState st) (fst (readPage deps (ensureNewPage deps (markdownOutput st))))
           (fst (readPage deps (ensureNewPage deps (htmlOutput st)))) = (Inr eventId, c')"
    by (simp add: plain rich)
  note sent = sendReadyPages_resolved[of deps st cb eventId c', OF peek this]
  show ?thesis
    by (subst renderLoop.simps) (simp add: sent loopBody_def plain rich)
qed

theorem ready_page_sent_from_both_streams_witness:
  "\<exists>sent.
     sendReadyPages (specCollaborators 8 exampleMarkdown exampleHtml) acceptAll afterHello
       = Inr sent \<and>
     \<not> peekPage (specCollaborators 8 exampleMarkdown exampleHtml) (markdownOutput afterHello) \<and>
     unsent (markdownOutput sent) = [] \<and> unsent (htmlOutput sent) = [] \<and>
     effects sent = effects afterHello @
       [PageRead MARKDOWN_RENDERER (Some ''hello''), PageRead HTML_RENDERER (Some ''<p>hello''),
        Sent (Some ''hello'') (Some ''<p>hello'') (Inr ''$event'')] \<and>
     eventIds sent = [''$event'']"
proof -
  let ?deps = "specCollaborators 8 exampleMarkdown exampleHtml"
  have ready: "peekPage ?deps (markdownOutput afterHello) \<or> peekPage ?deps (htmlOutput afterHello)"
    by code_simp
  have notmd: "\<not> peekPage ?deps (markdownOutput afterHello)"
    by code_simp
  have plain: "Some ''hello'' = fst (readPage ?deps (ensureNewPage ?deps (markdownOutput afterHello)))"
    by code_simp
  have rich: "Some ''<p>hello'' = fst (readPage ?deps (ensureNewPage ?deps (htmlOutput afterHello)))"
    by code_simp
  have answer: "acceptAll (cbState afterHello) (Some ''hello'') (Some ''<p>hello'') = (Inr ''$event'', 1)"
    by code_simp
  have md': "unsent (snd (readPage ?deps (ensureNewPage ?deps (markdownOutput afterHello)))) = []"
    by code_simp
  have html': "unsent (snd (readPage ?deps (ensureNewPage ?deps (htmlOutput afterHello)))) = []"
    by code_simp
  have ids: "eventIds afterHello = []" by (simp add: afterHello_def)
  from ready_page_sent_from_both_streams
         [where deps = "?deps" and st = afterHello and cb = acceptAll
            and plainPage = "Some ''hello''" and richPage = "Some ''<p>hello''"
            and eventId = "''$event''" and c' = 1, OF ready plain rich answer]
       notmd md' html' ids
  show ?thesis by auto
qed

subsection \<open>The walkers are compared after every pair of increments\<close>

text \<open>
  C3, amended.  For the first pair of increments and for the pair of every loop
  iteration: when the two walkers return different values, \<^verbatim>\<open>renderMatrix\<close> raises
  the implementation error at once, and the two increments are the last steps of the
  run.  For a whole run: the error is only raised after such a pair, all earlier pairs
  having agreed, and a run that ends otherwise (no walker having raised) has the two
  walkers return the same sequence of values.  The comparison is on the returned
  references alone, as \<^verbatim>\<open>checkEqual\<close> makes it: the phase of an event is no part of what
  \<^verbatim>\<open>increment\<close> returns.  As the claim has it, with the phase compared as well, it
  fails: two walkers that return the same node at every pair, one on its entry and the
  other on its exit, never get the error, and the page they wrote is sent.
\<close>

theorem walker_disagreement_is_fatal:
  fixes deps :: "('w, 's, 'n) Collaborators" and cb :: "('e, 'c) SendMatrixEventCB"
    and st0 st st1 :: "('w, 's, 'n, 'e, 'c) RenderState"
  shows
    "(tag node = Root \<and> st0 = constructed deps node c0 \<and>
      increment deps (markdownWalker st0) (markdownOutput st0) = Inr (a, mdW, mdOut) \<and>
      increment deps (htmlWalker st0) (htmlOutput st0) = Inr (b, htmlW, htmlOut) \<and> a \<noteq> b
      \<longrightarrow> renderMatrix deps node cb c0 =
            Some \<lparr>returned = Inl WalkerBugError, collected = [], cbFinal = c0,
                  performed = effects st0 @
                    [Incremented MARKDOWN_RENDERER a, Incremented HTML_RENDERER b]\<rparr>) \<and>
     (currentHtmlNode st \<noteq> None \<and> sendReadyPages deps cb st = Inr st1 \<and>
      increment deps (markdownWalker st1) (markdownOutput st1) = Inr (a', mdW', mdOut') \<and>
      increment deps (htmlWalker st1) (htmlOutput st1) = Inr (b', htmlW', htmlOut') \<and> a' \<noteq> b'
      \<longrightarrow> renderLoop deps cb st =
            Some \<lparr>returned = Inl WalkerBugError, collected = eventIds st1,
                  cbFinal = cbState st1,
                  performed = effects st1 @
                    [Incremented MARKDOWN_RENDERER a', Incremented HTML_RENDERER b']\<rparr>) \<and>
     (tag node = Root \<and> renderMatrix deps node cb c0 = Some r
      \<longrightarrow> (returned r = Inl WalkerBugError \<longrightarrow>
             (\<exists>before x y. x \<noteq> y \<and>
                performed r = before @
                  [Incremented MARKDOWN_RENDERER x, Incremented HTML_RENDERER y] \<and>
                nodesVisited MARKDOWN_RENDERER before = nodesVisited HTML_RENDERER before)) \<and>
           (returned r \<noteq> Inl WalkerBugError \<and> (\<forall>msg. returned r \<noteq> Inl (WalkerRaised msg)) \<longrightarrow>
              nodesVisited MARKDOWN_RENDERER (performed r) =
                nodesVisited HTML_RENDERER (performed r)))"
proof (intro conjI impI)
  assume h: "tag node = Root \<and> st0 = constructed deps node c0 \<and>
      increment deps (markdownWalker st0) (markdownOutput st0) = Inr (a, mdW, mdOut) \<and>
      increment deps (htmlWalker st0) (htmlOutput st0) = Inr (b, htmlW, htmlOut) \<and> a \<noteq> b"
  then have "incrementBoth deps st0 =
           Inl \<lparr>returned = Inl WalkerBugError, collected = eventIds st0, cbFinal = cbState st0,
                performed = effects st0 @
                  [Incremented MARKDOWN_RENDERER a, Incremented HTML_RENDERER b]\<rparr>"
    by (intro incrementBoth_disagree) auto
  moreover from h have "eventIds st0 = []" and "cbState st0 = c0"
    by (simp_all add: constructed_def)
  ultimately show "renderMatrix deps node cb c0 =
            Some \<lparr>returned = Inl WalkerBugError, collected = [], cbFinal = c0,
                  performed = effects st0 @
                    [Incremented MARKDOWN_RENDERER a, Incremented HTML_RENDERER b]\<rparr>"
    using h by (simp add: renderMatrix_def)
next
  assume h: "currentHtmlNode st \<noteq> None \<and> sendReadyPages deps cb st = Inr st1 \<and>
      increment deps (markdownWalker st1) (markdownOutput st1) = Inr (a', mdW', mdOut') \<and>
      increment deps (htmlWalker st1) (htmlOutput st1) = Inr (b', htmlW', htmlOut') \<and> a' \<noteq> b'"
  then have "incrementBoth deps st1 =
           Inl \<lparr>returned = Inl WalkerBugError, collected = eventIds st1, cbFinal = cbState st1,
                performed = effects st1 @
                  [Incremented MARKDOWN_RENDERER a', Incremented HTML_RENDERER b']\<rparr>"
    by (intro incrementBoth_disagree) auto
  with h have "loopBody deps cb st =
           Inl \<lparr>returned = Inl WalkerBugError, collected = eventIds st1, cbFinal = cbState st1,
                performed = effects st1 @
                  [Incremented MARKDOWN_RENDERER a', Incremented HTML_RENDERER b']\<rparr>"
    by (simp add: loopBody_def)
  with h show "renderLoop deps cb st =
            Some \<lparr>returned = Inl WalkerBugError, collected = eventIds st1,
                  cbFinal = cbState st1,
                  performed = effects st1 @
                    [Incremented MARKDOWN_RENDERER a', Incremented HTML_RENDERER b']\<rparr>"
    by (intro renderLoop_body_failed) auto
next
  assume h: "tag node = Root \<and> renderMatrix deps node cb c0 = Some r"
  then have ok: "outcomeOk r" by (auto intro: renderMatrix_outcomeOk)
  {
    assume "returned r = Inl WalkerBugError"
    with ok show "\<exists>before x y. x \<noteq> y \<and>
                performed r = before @
                  [Incremented MARKDOWN_RENDERER x, Incremented HTML_RENDERER y] \<and>
                nodesVisited MARKDOWN_RENDERER before = nodesVisited HTML_RENDERER before"
      by (auto simp: outcomeOk_def)
  }
  {
    assume n: "returned r \<noteq> Inl WalkerBugError \<and> (\<forall>msg. returned r \<noteq> Inl (WalkerRaised msg))"
    show "nodesVisited MARKDOWN_RENDERER (performed r) =
                nodesVisited HTML_RENDERER (performed r)"
    proof (cases "returned r")
      case (Inr ids)
      with ok show ?thesis by (simp add: outcomeOk_def)
    next
      case (Inl err)
      with n ok show ?thesis
        by (cases err) (auto simp: outcomeOk_def)
    qed
  }
qed

theorem walker_disagreement_is_fatal_witness:
  "returned (the (renderMatrix (skewedCollaborators belowRoot 64 exampleMarkdown exampleHtml)
       helloWorld acceptAll 0)) = Inl WalkerBugError \<and>
   renderMatrix (skewedCollaborators belowRoot 64 exampleMarkdown exampleHtml)
       helloWorld acceptAll 0 \<noteq> None \<and>
   returned (the (renderLoop (skewedCollaborators notLeafExit 8 exampleMarkdown exampleHtml)
       acceptAll afterHelloSkewed)) = Inl WalkerBugError \<and>
   (\<exists>r before x y.
      renderMatrix (skewedCollaborators notLeafExit 64 exampleMarkdown exampleHtml)
        helloWorld acceptAll 0 = Some r \<and>
      x \<noteq> y \<and>
      performed r = before @ [Incremented MARKDOWN_RENDERER x, Incremented HTML_RENDERER y] \<and>
      nodesVisited MARKDOWN_RENDERER before = nodesVisited HTML_RENDERER before) \<and>
   (\<exists>r. renderMatrix (specCollaborators 8 exampleMarkdown exampleHtml) helloWorld acceptAll 0
          = Some r \<and>
        nodesVisited MARKDOWN_RENDERER (performed r) = nodesVisited HTML_RENDERER (performed r))"
proof -
  let ?first = "skewedCollaborators belowRoot 64 exampleMarkdown exampleHtml"
  let ?later = "skewedCollaborators notLeafExit 8 exampleMarkdown exampleHtml"
  let ?whole = "skewedCollaborators notLeafExit 64 exampleMarkdown exampleHtml"
  let ?good = "specCollaborators 8 exampleMarkdown exampleHtml"
  let ?st0 = "constructed ?first helloWorld 0
                :: (FringeWalker, PagedDuplexStream, NodePath, string, nat) RenderState"
  let ?md0 = "increment ?first (markdownWalker ?st0) (markdownOutput ?st0)"
  let ?html0 = "increment ?first (htmlWalker ?st0) (htmlOutput ?st0)"
  let ?st1 = "projr (sendReadyPages ?later acceptAll afterHelloSkewed)"
  let ?md1 = "increment ?later (markdownWalker ?st1) (markdownOutput ?st1)"
  let ?html1 = "increment ?later (htmlWalker ?st1) (htmlOutput ?st1)"
  have root: "tag helloWorld = Root" by (simp add: helloWorld_def)
  have "\<not> isl ?md0" and "\<not> isl ?html0" by code_simp+
  then have inc0: "?md0 = Inr (fst (projr ?md0), fst (snd (projr ?md0)), snd (snd (projr ?md0)))"
    "?html0 = Inr (fst (projr ?html0), fst (snd (projr ?html0)), snd (snd (projr ?html0)))"
    by (simp_all add: sum.collapse(2))
  have differ0: "fst (projr ?md0) \<noteq> fst (projr ?html0)" by code_simp
  have "\<not> isl (sendReadyPages ?later acceptAll afterHelloSkewed)" by code_simp
  then have sent: "sendReadyPages ?later acceptAll afterHelloSkewed = Inr ?st1" by simp
  have more: "currentHtmlNode afterHelloSkewed \<noteq> None" by code_simp
  have "\<not> isl ?md1" and "\<not> isl ?html1" by code_simp+
  then have inc1: "?md1 = Inr (fst (projr ?md1), fst (snd (projr ?md1)), snd (snd (projr ?md1)))"
    "?html1 = Inr (fst (projr ?html1), fst (snd (projr ?html1)), snd (snd (projr ?html1)))"
    by (simp_all add: sum.collapse(2))
  have differ1: "fst (projr ?md1) \<noteq> fst (projr ?html1)" by code_simp
  have "renderMatrix ?whole helloWorld acceptAll 0 \<noteq> None" by code_simp
  then obtain r where r: "renderMatrix ?whole helloWorld acceptAll 0 = Some r" by auto
  have "returned (the (renderMatrix ?whole helloWorld acceptAll 0)) = Inl WalkerBugError"
    by code_simp
  with r have bug: "returned r = Inl WalkerBugError" by simp
  have "renderMatrix ?good helloWorld acceptAll 0 \<noteq> None" by code_simp
  then obtain r' where r': "renderMatrix ?good helloWorld acceptAll 0 = Some r'" by auto
  have "returned (the (renderMatrix ?good helloWorld acceptAll 0))
          = Inr [''$event'', ''$event+'', ''$event++'', ''$event+++'']"
    by code_simp
  with r' have fine: "returned r' \<noteq> Inl WalkerBugError" "\<forall>msg. returned r' \<noteq> Inl (WalkerRaised msg)"
    by simp_all
  note first = walker_disagreement_is_fatal
    [where deps = "?first" and node = helloWorld and ?c0.0 = 0 and cb = acceptAll and ?st0.0 = "?st0"
       and a = "fst (projr ?md0)" and mdW = "fst (snd (projr ?md0))" and mdOut = "snd (snd (projr ?md0))"
       and b = "fst (projr ?html0)" and htmlW = "fst (snd (projr ?html0))"
       and htmlOut = "snd (snd (projr ?html0))", THEN conjunct1, rule_format]
  note later = walker_disagreement_is_fatal
    [where deps = "?later" and cb = acceptAll and st = afterHelloSkewed and ?st1.0 = "?st1"
       and a' = "fst (projr ?md1)" and mdW' = "fst (snd (projr ?md1))"
       and mdOut' = "snd (snd (projr ?md1))"
       and b' = "fst (projr ?html1)" and htmlW' = "fst (snd (projr ?html1))"
       and htmlOut' = "snd (snd (projr ?html1))", THEN conjunct2, THEN conjunct1, rule_format]
  note whole = walker_disagreement_is_fatal
    [where deps = "?whole" and node = helloWorld and ?c0.0 = 0 and cb = acceptAll and r = r,
       THEN conjunct2, THEN conjunct2, rule_format]
  note good = walker_disagreement_is_fatal
    [where deps = "?good" and node = helloWorld and ?c0.0 = 0 and cb = acceptAll and r = r',
       THEN conjunct2, THEN conjunct2, rule_format]
  from first root inc0 differ0
  have 1: "returned (the (renderMatrix ?first helloWorld acceptAll 0)) = Inl WalkerBugError"
    "renderMatrix ?first helloWorld acceptAll 0 \<noteq> None"
    by simp_all
  from later more sent inc1 differ1
  have 2: "returned (the (renderLoop ?later acceptAll afterHelloSkewed)) = Inl WalkerBugError"
    by simp
  from whole root r bug
  have 3: "\<exists>before x y. x \<noteq> y \<and>
      performed r = before @ [Incremented MARKDOWN_RENDERER x, Incremented HTML_RENDERER y] \<and>
      nodesVisited MARKDOWN_RENDERER before = nodesVisited HTML_RENDERER before"
    by blast
  from good root r' fine
  have 4: "nodesVisited MARKDOWN_RENDERER (performed r') = nodesVisited HTML_RENDERER (performed r')"
    by blast
  from 1 2 3 4 r r' show ?thesis by blast
qed

theorem walker_disagreement_is_fatal_counterexample:
  "list_all2 samePlaceOtherPhase
     (cursor (markdownWalker
        (constructed (phaseSkewed 64 exampleMarkdown exampleHtml) helloWorld (0 :: nat)
           :: (FringeWalker, PagedDuplexStream, NodePath, string, nat) RenderState)))
     (cursor (htmlWalker
        (constructed (phaseSkewed 64 exampleMarkdown exampleHtml) helloWorld (0 :: nat)
           :: (FringeWalker, PagedDuplexStream, NodePath, string, nat) RenderState))) \<and>
   returned (the (renderMatrix (phaseSkewed 64 exampleMarkdown exampleHtml) helloWorld
      acceptAll 0)) = Inr [''$event''] \<and>
   nodesVisited MARKDOWN_RENDERER (performed (the (renderMatrix
      (phaseSkewed 64 exampleMarkdown exampleHtml) helloWorld acceptAll 0))) =
   nodesVisited HTML_RENDERER (performed (the (renderMatrix
      (phaseSkewed 64 exampleMarkdown exampleHtml) helloWorld acceptAll 0))) \<and>
   richPages (performed (the (renderMatrix (phaseSkewed 64 exampleMarkdown exampleHtml)
      helloWorld acceptAll 0))) = [''</p>hello<p></p>world<p>'']"
  by (intro conjI; code_simp)

subsection \<open>A rejected send\<close>

text \<open>
  C4.  When the callback rejects, in the loop or at the final flush, the run ends at
  once with that rejection, carried unchanged; the rejected send is the last step, and
  the identifiers collected are those of the sends before it, one for each, which stay
  sent.
\<close>

theorem send_failure_aborts_render:
  fixes deps :: "('w, 's, 'n) Collaborators" and cb :: "('e, 'c) SendMatrixEventCB"
    and st st' :: "('w, 's, 'n, 'e, 'c) RenderState"
  shows
    "(currentHtmlNode st \<noteq> None \<and> somePeekPage deps st \<and>
      plainPage = fst (readPage deps (ensureNewPage deps (markdownOutput st))) \<and>
      richPage = fst (readPage deps (ensureNewPage deps (htmlOutput st))) \<and>
      cb (cbState st) plainPage richPage = (Inl e, c')
      \<longrightarrow> renderLoop deps cb st =
            Some \<lparr>returned = Inl (SendRejected e), collected = eventIds st, cbFinal = c',
                  performed = effects st @
                    [PageRead MARKDOWN_RENDERER plainPage, PageRead HTML_RENDERER richPage,
                     Sent plainPage richPage (Inl e)]\<rparr>) \<and>
     (currentHtmlNode st' = None \<and> somePeekPage deps (ensureNewPages deps st') \<and>
      lastPlain = fst (readPage deps (ensureNewPage deps (markdownOutput st'))) \<and>
      lastRich = fst (readPage deps (ensureNewPage deps (htmlOutput st'))) \<and>
      cb (cbState st') lastPlain lastRich = (Inl e', c'')
      \<longrightarrow> renderLoop deps cb st' =
            Some \<lparr>returned = Inl (SendRejected e'), collected = eventIds st', cbFinal = c'',
                  performed = effects st' @
                    [PageRead MARKDOWN_RENDERER lastPlain, PageRead HTML_RENDERER lastRich,
                     Sent lastPlain lastRich (Inl e')]\<rparr>) \<and>
     (renderMatrix deps node cb c0 = Some r \<and> rejections (performed r) \<noteq> []
      \<longrightarrow> (\<exists>before page1 page2 reason.
             performed r = before @
               [PageRead MARKDOWN_RENDERER page1, PageRead HTML_RENDERER page2,
                Sent page1 page2 (Inl reason)] \<and>
             rejections before = [] \<and>
             returned r = Inl (SendRejected reason) \<and>
             collected r = sentIds before \<and>
             length (collected r) = length (pagesSent before)))"
proof (intro conjI impI)
  assume h: "currentHtmlNode st \<noteq> None \<and> somePeekPage deps st \<and>
      plainPage = fst (readPage deps (ensureNewPage deps (markdownOutput st))) \<and>
      richPage = fst (readPage deps (ensureNewPage deps (htmlOutput st))) \<and>
      cb (cbState st) plainPage richPage = (Inl e, c')"
  then have peek: "somePeekPage deps st"
    and answer: "cb (cbState st) (fst (readPage deps (ensureNewPage deps (markdownOutput st))))
           (fst (readPage deps (ensureNewPage deps (htmlOutput st)))) = (Inl e, c')"
    and pages: "plainPage = fst (readPage deps (ensureNewPage deps (markdownOutput st)))"
      "richPage = fst (readPage deps (ensureNewPage deps (htmlOutput st)))"
    by auto
  have "sendReadyPages deps cb st =
      Inl \<lparr>returned = Inl (SendRejected e), collected = eventIds st, cbFinal = c',
                  performed = effects st @
                    [PageRead MARKDOWN_RENDERER plainPage, PageRead HTML_RENDERER richPage,
                     Sent plainPage richPage (Inl e)]\<rparr>"
    unfolding pages by (rule sendReadyPages_rejected[of deps st cb e c', OF peek answer])
  then have "loopBody deps cb st =
      Inl \<lparr>returned = Inl (SendRejected e), collected = eventIds st, cbFinal = c',
                  performed = effects st @
                    [PageRead MARKDOWN_RENDERER plainPage, PageRead HTML_RENDERER richPage,
                     Sent plainPage richPage (Inl e)]\<rparr>"
    by (simp add: loopBody_def)
  with h show "renderLoop deps cb st =
            Some \<lparr>returned = Inl (SendRejected e), collected = eventIds st, cbFinal = c',
                  performed = effects st @
                    [PageRead MARKDOWN_RENDERER plainPage, PageRead HTML_RENDERER richPage,
                     Sent plainPage richPage (Inl e)]\<rparr>"
    by (intro renderLoop_body_failed) auto
next
  assume h: "currentHtmlNode st' = None \<and> somePeekPage deps (ensureNewPages deps st') \<and>
      lastPlain = fst (readPage deps (ensureNewPage deps (markdownOutput st'))) \<and>
      lastRich = fst (readPage deps (ensureNewPage deps (htmlOutput st'))) \<and>
      cb (cbState st') lastPlain lastRich = (Inl e', c'')"
  then have "finalFlush deps cb st' =
       \<lparr>returned = Inl (SendRejected e'), collected = eventIds st', cbFinal = c'',
                  performed = effects st' @
                    [PageRead MARKDOWN_RENDERER lastPlain, PageRead HTML_RENDERER lastRich,
                     Sent lastPlain lastRich (Inl e')]\<rparr>"
    by (auto simp: finalFlush_def sendPage_def ensureNewPages_def raise_def Let_def
        split: prod.splits)
  with h show "renderLoop deps cb st' =
            Some \<lparr>returned = Inl (SendRejected e'), collected = eventIds st', cbFinal = c'',
                  performed = effects st' @
                    [PageRead MARKDOWN_RENDERER lastPlain, PageRead HTML_RENDERER lastRich,
                     Sent lastPlain lastRich (Inl e')]\<rparr>"
    by (subst renderLoop.simps) simp
next
  assume h: "renderMatrix deps node cb c0 = Some r \<and> rejections (performed r) \<noteq> []"
  have root: "tag node = Root"
  proof (rule ccontr)
    assume "tag node \<noteq> Root"
    with h show False by (auto simp: renderMatrix_def)
  qed
  with h have ok: "outcomeOk r" by (auto intro: renderMatrix_outcomeOk)
  show "\<exists>before page1 page2 reason.
             performed r = before @
               [PageRead MARKDOWN_RENDERER page1, PageRead HTML_RENDERER page2,
                Sent page1 page2 (Inl reason)] \<and>
             rejections before = [] \<and>
             returned r = Inl (SendRejected reason) \<and>
             collected r = sentIds before \<and>
             length (collected r) = length (pagesSent before)"
  proof (cases "returned r")
    case (Inr ids)
    with ok h show ?thesis by (simp add: outcomeOk_def)
  next
    case (Inl err)
    show ?thesis
    proof (cases err)
      case NoRootError
      with Inl ok show ?thesis by (simp add: outcomeOk_def)
    next
      case WalkerBugError
      with Inl ok h show ?thesis by (auto simp: outcomeOk_def)
    next
      case (WalkerRaised msg)
      with Inl ok h show ?thesis by (auto simp: outcomeOk_def)
    next
      case (SendRejected reason)
      with Inl ok obtain before page1 page2 where
        p: "performed r = before @
               [PageRead MARKDOWN_RENDERER page1, PageRead HTML_RENDERER page2,
                Sent page1 page2 (Inl reason)]"
        and rj: "rejections before = []"
        and c: "collected r = sentIds (performed r)"
        by (auto simp: outcomeOk_def)
      from c p have "collected r = sentIds before" by simp
      with p rj Inl SendRejected sent_before_rejection[OF rj] show ?thesis by auto
    qed
  qed
qed

theorem send_failure_aborts_render_witness:
  "(\<exists>r before page1 page2.
      renderMatrix (specCollaborators 8 exampleMarkdown exampleHtml) helloWorld rejectSecond 0
        = Some r \<and>
      returned r = Inl (SendRejected ''M_LIMIT_EXCEEDED'') \<and>
      collected r = [''$event''] \<and>
      performed r = before @
        [PageRead MARKDOWN_RENDERER page1, PageRead HTML_RENDERER page2,
         Sent page1 page2 (Inl ''M_LIMIT_EXCEEDED'')] \<and>
      length (pagesSent before) = 1) \<and>
   returned (the (renderLoop (specCollaborators 8 exampleMarkdown exampleHtml) rejectSecond
      (afterHello\<lparr>cbState := 1\<rparr>))) = Inl (SendRejected ''M_LIMIT_EXCEEDED'') \<and>
   returned (the (renderLoop (specCollaborators 8 exampleMarkdown exampleHtml) rejectSecond
      (afterHello\<lparr>cbState := 1, currentHtmlNode := None\<rparr>)))
     = Inl (SendRejected ''M_LIMIT_EXCEEDED'')"
proof -
  let ?deps = "specCollaborators 8 exampleMarkdown exampleHtml"
  let ?run = "renderMatrix ?deps helloWorld rejectSecond 0"
  let ?st = "afterHello\<lparr>cbState := 1\<rparr>"
  let ?st' = "afterHello\<lparr>cbState := 1, currentHtmlNode := None\<rparr>"
  have "?run \<noteq> None" by code_simp
  then obtain r where r: "?run = Some r" by auto
  have "rejections (performed (the ?run)) = [''M_LIMIT_EXCEEDED'']"
    and "collected (the ?run) = [''$event'']"
    by code_simp+
  with r have rej: "rejections (performed r) = [''M_LIMIT_EXCEEDED'']"
    and col: "collected r = [''$event'']"
    by simp_all
  from send_failure_aborts_render
         [where deps = "?deps" and node = helloWorld and cb = rejectSecond and ?c0.0 = 0
            and r = r, THEN conjunct2, THEN conjunct2, rule_format] r rej
  obtain before page1 page2 reason where
    p: "performed r = before @
               [PageRead MARKDOWN_RENDERER page1, PageRead HTML_RENDERER page2,
                Sent page1 page2 (Inl reason)]"
    and b: "rejections before = []" and ret: "returned r = Inl (SendRejected reason)"
    and len: "length (collected r) = length (pagesSent before)"
    by auto
  from p b rej have reason: "reason = ''M_LIMIT_EXCEEDED''" by simp
  have 1: "\<exists>r before page1 page2.
      ?run = Some r \<and>
      returned r = Inl (SendRejected ''M_LIMIT_EXCEEDED'') \<and>
      collected r = [''$event''] \<and>
      performed r = before @
        [PageRead MARKDOWN_RENDERER page1, PageRead HTML_RENDERER page2,
         Sent page1 page2 (Inl ''M_LIMIT_EXCEEDED'')] \<and>
      length (pagesSent before) = 1"
    using r p ret len col reason by auto
  have more: "currentHtmlNode ?st \<noteq> None" and peek: "somePeekPage ?deps ?st"
    by code_simp+
  have answer: "rejectSecond (cbState ?st)
      (fst (readPage ?deps (ensureNewPage ?deps (markdownOutput ?st))))
      (fst (readPage ?deps (ensureNewPage ?deps (htmlOutput ?st)))) = (Inl ''M_LIMIT_EXCEEDED'', 2)"
    by code_simp
  from send_failure_aborts_render
         [where deps = "?deps" and cb = rejectSecond and st = "?st"
            and plainPage = "fst (readPage ?deps (ensureNewPage ?deps (markdownOutput ?st)))"
            and richPage = "fst (readPage ?deps (ensureNewPage ?deps (htmlOutput ?st)))"
            and e = "''M_LIMIT_EXCEEDED''" and c' = 2, THEN conjunct1, rule_format]
       more peek answer
  have 2: "returned (the (renderLoop ?deps rejectSecond ?st))
             = Inl (SendRejected ''M_LIMIT_EXCEEDED'')"
    by simp
  have last: "currentHtmlNode ?st' = None" and peek': "somePeekPage ?deps (ensureNewPages ?deps ?st')"
    by code_simp+
  have answer': "rejectSecond (cbState ?st')
      (fst (readPage ?deps (ensureNewPage ?deps (markdownOutput ?st'))))
      (fst (readPage ?deps (ensureNewPage ?deps (htmlOutput ?st')))) = (Inl ''M_LIMIT_EXCEEDED'', 2)"
    by code_simp
  from send_failure_aborts_render
         [where deps = "?deps" and cb = rejectSecond and st' = "?st'"
            and lastPlain = "fst (readPage ?deps (ensureNewPage ?deps (markdownOutput ?st')))"
            and lastRich = "fst (readPage ?deps (ensureNewPage ?deps (htmlOutput ?st')))"
            and e' = "''M_LIMIT_EXCEEDED''" and c'' = 2, THEN conjunct2, THEN conjunct1, rule_format]
       last peek' answer'
  have 3: "returned (the (renderLoop ?deps rejectSecond ?st'))
             = Inl (SendRejected ''M_LIMIT_EXCEEDED'')"
    by simp
  from 1 2 3 show ?thesis by blast
qed

subsection \<open>The JSX factory\<close>

lemma ensureChild_flattened:
  fixes x :: "('num, 'x) rawJSX" and xs :: "('num, 'x) rawJSX list"
  shows
  "ensureChild Number_toString (DocumentNode t cs) x =
     (case flattenedChild Number_toString x of
        Inl thrown \<Rightarrow> Inl thrown
      | Inr new \<Rightarrow> Inr (DocumentNode t (cs @ new)))"
  and
  "forEachChild Number_toString (DocumentNode t cs) xs =
     (case flattenedChildren Number_toString xs of
        Inl thrown \<Rightarrow> Inl thrown
      | Inr new \<Rightarrow> Inr (DocumentNode t (cs @ new)))"
proof (induction Number_toString x and Number_toString xs arbitrary: cs and cs
    rule: flattenedChild_flattenedChildren.induct)
  case (7 Number_toString x xs)
  show ?case
  proof (cases "flattenedChild Number_toString x")
    case (Inl thrown)
    with 7(1)[of cs] show ?thesis by simp
  next
    case (Inr first)
    with 7(1)[of cs] 7(2)[OF Inr, of "cs @ first"] show ?thesis
      by (simp split: sum.splits)
  qed
qed (simp_all add: makeLeafNode_def unexpected_def split: option.splits sum.splits)

text \<open>
  C10, amended.  \<^verbatim>\<open>JSXFactory(tag, properties, ...children)\<close> returns a node with the
  given tag whose children are the flattened raw children, in order: a text leaf for a
  string, a text leaf with the text of its \<^verbatim>\<open>toString()\<close> for a number, the elements of
  an array in order, a node as it is.  When some child, at any depth of the arrays, is
  none of these, the first such child ends the call: with the \<^verbatim>\<open>TypeError\<close> that
  names it, or with what reading its \<^verbatim>\<open>leafNode\<close> property or printing it for the
  message throws, which need not be a \<^verbatim>\<open>TypeError\<close>.  The properties are not used.
  As the claim has it, with a \<^verbatim>\<open>TypeError\<close> for every such child, it fails.
\<close>

theorem JSXFactory_children:
  "JSXFactory Number_toString t properties rawChildren =
     (case flattenedChildren Number_toString rawChildren of
        Inl thrown \<Rightarrow> Inl thrown
      | Inr children \<Rightarrow> Inr (DocumentNode t children))"
  using ensureChild_flattened(2)[of Number_toString t "[]" rawChildren]
  by (simp add: JSXFactory_def makeDocumentNode_def split: sum.splits)

theorem JSXFactory_children_witness:
  "JSXFactory exampleToString Paragraph ()
     [JSXString ''a'', JSXNumber FortyTwo,
      JSXArray [JSXNumber OneAndAHalf, JSXArray [JSXNode (LeafNode LineBreak [])],
                JSXNumber TenToThe21],
      JSXNode (DocumentNode Bold [LeafNode TextNode ''b''])] =
     (Inr (DocumentNode Paragraph
        [LeafNode TextNode ''a'', LeafNode TextNode ''42'', LeafNode TextNode ''1.5'',
         LeafNode LineBreak [], LeafNode TextNode ''1e+21'',
         DocumentNode Bold [LeafNode TextNode ''b'']]) :: string Thrown + AbstractNode) \<and>
   JSXFactory exampleToString Paragraph ()
     [JSXString ''a'', JSXArray [JSXOther None (Inr ''{}'')], JSXNumber MinusSeven] =
     (Inl (TypeError ''Unexpected raw child {}'') :: string Thrown + AbstractNode) \<and>
   JSXFactory exampleToString Paragraph ()
     [JSXOther (Some (TypeError ''Cannot read properties of null'')) (Inr ''null'')] =
     (Inl (TypeError ''Cannot read properties of null'') :: string Thrown + AbstractNode)"
  by (simp add: JSXFactory_children unexpected_def)

theorem JSXFactory_children_counterexample:
  "JSXFactory exampleToString Paragraph ()
     [JSXString ''a'', JSXOther None (Inl (OtherError ''RangeError''))] =
     (Inl (OtherError ''RangeError'') :: string Thrown + AbstractNode)"
  by code_simp

subsection \<open>Pagination with the stream and the walker of the spec\<close>

text \<open>
  C5.  With the stream and the walker of the spec, the run of \<^verbatim>\<open>renderMatrix\<close> on a
  Root node always returns.  The callback is called on the pages of the run and on
  nothing else, one call after the other, and answers what the run records; the texts
  of the pages it is given, concatenated in send order, are a prefix of the full
  rendering in each format, and the whole of it when the run returns its identifiers,
  which it does unless the callback rejects a page.  A page argument that is
  \<^verbatim>\<open>undefined\<close> counts as the empty text.
\<close>

theorem pagination_keeps_all_content:
  fixes cb :: "('e, 'c) SendMatrixEventCB"
  assumes "tag node = Root"
  shows "\<exists>r. renderMatrix (specCollaborators D md html) node cb c0 = Some r \<and>
           callbackRun cb c0 (pagesSent (performed r)) = (answers (performed r), cbFinal r) \<and>
           (\<exists>plainLeft richLeft.
              plainSent (performed r) @ plainLeft = render md node \<and>
              richSent (performed r) @ richLeft = render html node \<and>
              ((\<exists>ids. returned r = Inr ids) \<longrightarrow> plainLeft = [] \<and> richLeft = [])) \<and>
           (rejections (performed r) = [] \<longrightarrow> returned r = Inr (sentIds (performed r)))"
proof -
  let ?deps = "specCollaborators D md html"
  let ?Q = "\<lambda>r :: (NodePath, 'e, 'c) RenderOutcome.
              (\<exists>plainLeft richLeft.
                 plainSent (performed r) @ plainLeft = render md node \<and>
                 richSent (performed r) @ richLeft = render html node \<and>
                 ((\<exists>ids. returned r = Inr ids) \<longrightarrow> plainLeft = [] \<and> richLeft = [])) \<and>
              ((\<exists>ids. returned r = Inr ids) \<or> (\<exists>e. returned r = Inl (SendRejected e)))"
  have rejected: "?Q f"
    if core: "specCore D md html node s"
      and f: "sendPage ?deps cb (ensureNewPages ?deps s) = Inl f"
    for s :: "(FringeWalker, PagedDuplexStream, NodePath, 'e, 'c) RenderState" and f
  proof -
    let ?mdR = "PagedDuplexStream_readPage (PagedDuplexStream_ensureNewPage (markdownOutput s))"
    let ?htmlR = "PagedDuplexStream_readPage (PagedDuplexStream_ensureNewPage (htmlOutput s))"
    note c = specCoreD[OF core]
    from specCore_sendPage[OF core, of cb] f
    have e: "\<exists>e. returned f = Inl (SendRejected e)"
      and p: "plainSent (performed f) = plainSent (effects s) @ pageText (fst ?mdR)"
      and r: "richSent (performed f) = richSent (effects s) @ pageText (fst ?htmlR)"
      by simp_all
    have "plainSent (performed f) @ unsent (snd ?mdR) @ fragments md (cursor (htmlWalker s))
          = render md node"
      unfolding p using c(10) by (simp add: readPage_ensured_more)
    moreover
    have "richSent (performed f) @ unsent (snd ?htmlR) @ fragments html (cursor (htmlWalker s))
          = render html node"
      unfolding r using c(11) by (simp add: readPage_ensured_more)
    ultimately show ?thesis using e by auto
  qed
  from spec_first_pair[OF assms, of D md html cb c0]
  obtain st1 :: "(FringeWalker, PagedDuplexStream, NodePath, 'e, 'c) RenderState"
    where run: "renderMatrix ?deps node cb c0 = renderLoop ?deps cb st1"
      and inv: "specInv D md html node st1"
      and pages: "pagesInv st1"
    by blast
  have "\<exists>r. renderLoop ?deps cb st1 = Some r \<and> ?Q r"
  proof (rule spec_renderLoop_rule[where X = pagesInv and Q = ?Q, OF inv pages])
    fix s s' :: "(FringeWalker, PagedDuplexStream, NodePath, 'e, 'c) RenderState"
    assume "specInv D md html node s" and "pagesInv s" and "currentHtmlNode s \<noteq> None"
      and "loopBody ?deps cb s = Inr s'"
    then show "pagesInv s'" by (rule pagesInv_step)
  next
    fix s :: "(FringeWalker, PagedDuplexStream, NodePath, 'e, 'c) RenderState" and f
    assume i: "specInv D md html node s" and m: "currentHtmlNode s \<noteq> None"
      and l: "loopBody ?deps cb s = Inl f"
    from i have core: "specCore D md html node s" by (simp add: specInv_def)
    from spec_loopBody_failed[OF i m l]
    have "sendPage ?deps cb (ensureNewPages ?deps s) = Inl f" by simp
    from rejected[OF core this] show "?Q f" .
  next
    fix s :: "(FringeWalker, PagedDuplexStream, NodePath, 'e, 'c) RenderState"
    assume i: "specInv D md html node s" and x: "pagesInv s" and m: "currentHtmlNode s = None"
    let ?mdR = "PagedDuplexStream_readPage (PagedDuplexStream_ensureNewPage (markdownOutput s))"
    let ?htmlR = "PagedDuplexStream_readPage (PagedDuplexStream_ensureNewPage (htmlOutput s))"
    from i have core: "specCore D md html node s" by (simp add: specInv_def)
    from i m have atEnd: "cursor (htmlWalker s) = []" by (simp add: specInv_def)
    with specCoreD(10,11)[OF core]
    have whole: "plainSent (effects s) @ unsent (markdownOutput s) = render md node"
      "richSent (effects s) @ unsent (htmlOutput s) = render html node"
      by simp_all
    from x m atEnd have "fitsPage (sizeLimit (markdownOutput s)) (pieces (markdownOutput s))"
      and "fitsPage (sizeLimit (htmlOutput s)) (pieces (htmlOutput s))"
      by (simp_all add: pagesInv_def settled_fits)
    then have all: "pageText (fst ?mdR) = unsent (markdownOutput s)"
      "pageText (fst ?htmlR) = unsent (htmlOutput s)"
      by (simp_all add: readPage_after_ensureNewPage)
    from finalFlush_cases[of ?deps s cb]
    show "?Q (finalFlush ?deps cb s)"
    proof
      assume a: "\<not> somePeekPage ?deps (ensureNewPages ?deps s) \<and>
        finalFlush ?deps cb s =
          \<lparr>returned = Inr (eventIds s), collected = eventIds s, cbFinal = cbState s,
           performed = effects s\<rparr>"
      then have "unsent (markdownOutput s) = []" "unsent (htmlOutput s) = []"
        by (auto simp: somePeekPage_def ensureNewPages_def intro: not_peek_ensured)
      with a whole show ?thesis by simp
    next
      assume a: "somePeekPage ?deps (ensureNewPages ?deps s) \<and>
        (case sendPage ?deps cb (ensureNewPages ?deps s) of
           Inl failed \<Rightarrow> finalFlush ?deps cb s = failed
         | Inr st2 \<Rightarrow>
             finalFlush ?deps cb s =
               \<lparr>returned = Inr (eventIds st2), collected = eventIds st2, cbFinal = cbState st2,
                performed = effects st2\<rparr>)"
      show ?thesis
      proof (cases "sendPage ?deps cb (ensureNewPages ?deps s)")
        case (Inl failed)
        with a have f: "finalFlush ?deps cb s = failed" by simp
        from rejected[OF core Inl] show ?thesis unfolding f .
      next
        case (Inr st2)
        with a have f: "finalFlush ?deps cb s =
               \<lparr>returned = Inr (eventIds st2), collected = eventIds st2, cbFinal = cbState st2,
                performed = effects st2\<rparr>" by simp
        from specCore_sendPage[OF core, of cb] Inr
        have "plainSent (effects st2) = plainSent (effects s) @ pageText (fst ?mdR)"
          and "richSent (effects st2) = richSent (effects s) @ pageText (fst ?htmlR)"
          by simp_all
        with whole all f show ?thesis by simp
      qed
    qed
  qed
  with run obtain r where r: "renderMatrix ?deps node cb c0 = Some r" and q: "?Q r"
    by auto
  note ok = renderMatrix_outcomeOk[OF r assms]
  have "rejections (performed r) = [] \<longrightarrow> returned r = Inr (sentIds (performed r))"
  proof
    assume none: "rejections (performed r) = []"
    from q have "(\<exists>ids. returned r = Inr ids) \<or> (\<exists>e. returned r = Inl (SendRejected e))"
      by blast
    then show "returned r = Inr (sentIds (performed r))"
    proof
      assume "\<exists>ids. returned r = Inr ids"
      with ok show ?thesis by (auto simp: outcomeOk_def)
    next
      assume "\<exists>e. returned r = Inl (SendRejected e)"
      with ok none show ?thesis by (auto simp: outcomeOk_def)
    qed
  qed
  with r q renderMatrix_callbackRun[OF r] show ?thesis by blast
qed

theorem pagination_keeps_all_content_witness:
  "\<exists>r. renderMatrix (specCollaborators 8 exampleMarkdown exampleHtml) helloWorld acceptAll 0
          = Some r \<and>
        returned r = Inr [''$event'', ''$event+'', ''$event++'', ''$event+++''] \<and>
        cbFinal r = 4 \<and>
        callbackRun acceptAll 0 (pagesSent (performed r)) =
          ([Inr ''$event'', Inr ''$event+'', Inr ''$event++'', Inr ''$event+++''], 4) \<and>
        richPages (performed r) = [''<p>hello'', ''</p>'', ''<p>world'', ''</p>''] \<and>
        plainSent (performed r) = render exampleMarkdown helloWorld \<and>
        richSent (performed r) = ''<p>hello</p><p>world</p>''"
proof -
  let ?run = "renderMatrix (specCollaborators 8 exampleMarkdown exampleHtml) helloWorld acceptAll 0"
  have root: "tag helloWorld = Root" by (simp add: helloWorld_def)
  from pagination_keeps_all_content[OF root, of 8 exampleMarkdown exampleHtml acceptAll 0]
  obtain r plainLeft richLeft where r: "?run = Some r"
    and called: "callbackRun acceptAll 0 (pagesSent (performed r)) = (answers (performed r), cbFinal r)"
    and sent: "plainSent (performed r) @ plainLeft = render exampleMarkdown helloWorld"
      "richSent (performed r) @ richLeft = render exampleHtml helloWorld"
    and left: "(\<exists>ids. returned r = Inr ids) \<longrightarrow> plainLeft = [] \<and> richLeft = []"
    and ret: "rejections (performed r) = [] \<longrightarrow> returned r = Inr (sentIds (performed r))"
    by blast
  have "rejections (performed (the ?run)) = []"
    and "sentIds (performed (the ?run)) = [''$event'', ''$event+'', ''$event++'', ''$event+++'']"
    and "answers (performed (the ?run)) =
           [Inr ''$event'', Inr ''$event+'', Inr ''$event++'', Inr ''$event+++'']"
    and "cbFinal (the ?run) = 4"
    and "richPages (performed (the ?run)) = [''<p>hello'', ''</p>'', ''<p>world'', ''</p>'']"
    by code_simp+
  with r have facts: "rejections (performed r) = []"
    "sentIds (performed r) = [''$event'', ''$event+'', ''$event++'', ''$event+++'']"
    "answers (performed r) = [Inr ''$event'', Inr ''$event+'', Inr ''$event++'', Inr ''$event+++'']"
    "cbFinal r = 4"
    "richPages (performed r) = [''<p>hello'', ''</p>'', ''<p>world'', ''</p>'']"
    by simp_all
  with ret have returned: "returned r = Inr [''$event'', ''$event+'', ''$event++'', ''$event+++'']"
    by simp
  with left have "plainLeft = []" "richLeft = []" by simp_all
  moreover have "render exampleHtml helloWorld = ''<p>hello</p><p>world</p>''" by code_simp
  ultimately show ?thesis using r sent called facts returned by simp
qed

text \<open>
  C6, amended.  With the stream and the walker of the spec, a tree whose rendering is
  shorter than the page size in both formats, and not empty in both, is sent as one
  page: no send happens in the loop, and at the final flush, after both walkers have
  returned the terminal marker, the callback is called once with the full rendering of
  each format.  As the claim has it, without the condition on empty renderings, it fails:
  a tree that renders to nothing in both formats is below every positive page size
  and is not sent at all.
\<close>

theorem small_document_is_one_page:
  fixes cb :: "('e, 'c) SendMatrixEventCB"
  assumes root: "tag node = Root"
    and small: "length (render md node) < D" "length (render html node) < D"
    and content: "render md node \<noteq> [] \<or> render html node \<noteq> []"
  shows "\<exists>r before plainPage richPage answer c'.
           renderMatrix (specCollaborators D md html) node cb c0 = Some r \<and>
           performed r = before @
             [Incremented MARKDOWN_RENDERER None, Incremented HTML_RENDERER None,
              PageRead MARKDOWN_RENDERER plainPage, PageRead HTML_RENDERER richPage,
              Sent plainPage richPage answer] \<and>
           pagesSent before = [] \<and>
           pageText plainPage = render md node \<and> pageText richPage = render html node \<and>
           cb c0 plainPage richPage = (answer, c') \<and>
           returned r = (case answer of Inl e \<Rightarrow> Inl (SendRejected e)
                         | Inr eventId \<Rightarrow> Inr [eventId])"
proof -
  let ?deps = "specCollaborators D md html"
  let ?X = "\<lambda>s :: (FringeWalker, PagedDuplexStream, NodePath, 'e, 'c) RenderState.
              pagesSent (effects s) = [] \<and> eventIds s = [] \<and> cbState s = c0 \<and>
              (\<exists>before. effects s = before @
                 [Incremented MARKDOWN_RENDERER (currentHtmlNode s),
                  Incremented HTML_RENDERER (currentHtmlNode s)])"
  let ?Q = "\<lambda>r :: (NodePath, 'e, 'c) RenderOutcome.
           \<exists>before plainPage richPage answer c'.
           performed r = before @
             [Incremented MARKDOWN_RENDERER None, Incremented HTML_RENDERER None,
              PageRead MARKDOWN_RENDERER plainPage, PageRead HTML_RENDERER richPage,
              Sent plainPage richPage answer] \<and>
           pagesSent before = [] \<and>
           pageText plainPage = render md node \<and> pageText richPage = render html node \<and>
           cb c0 plainPage richPage = (answer, c') \<and>
           returned r = (case answer of Inl e \<Rightarrow> Inl (SendRejected e)
                         | Inr eventId \<Rightarrow> Inr [eventId])"
  from spec_first_pair[OF root, of D md html cb c0]
  obtain st1 :: "(FringeWalker, PagedDuplexStream, NodePath, 'e, 'c) RenderState"
    where run: "renderMatrix ?deps node cb c0 = renderLoop ?deps cb st1"
      and inv: "specInv D md html node st1"
      and x: "eventIds st1 = []" "pagesSent (effects st1) = []" "cbState st1 = c0"
      and e: "effects st1 =
             [StreamConstructed MARKDOWN_RENDERER None, WalkerConstructed MARKDOWN_RENDERER,
              StreamConstructed HTML_RENDERER None, WalkerConstructed HTML_RENDERER,
              Incremented MARKDOWN_RENDERER (currentHtmlNode st1),
              Incremented HTML_RENDERER (currentHtmlNode st1)]"
    by blast
  have "\<exists>r. renderLoop ?deps cb st1 = Some r \<and> ?Q r"
  proof (rule spec_renderLoop_rule[where X = ?X and Q = ?Q, OF inv])
    from e have "\<exists>before. effects st1 = before @
                 [Incremented MARKDOWN_RENDERER (currentHtmlNode st1),
                  Incremented HTML_RENDERER (currentHtmlNode st1)]"
      by (intro exI[of _ "[StreamConstructed MARKDOWN_RENDERER None,
              WalkerConstructed MARKDOWN_RENDERER,
              StreamConstructed HTML_RENDERER None, WalkerConstructed HTML_RENDERER]"]) simp
    with x show "?X st1" by simp
  next
    fix s s' :: "(FringeWalker, PagedDuplexStream, NodePath, 'e, 'c) RenderState"
    assume i: "specInv D md html node s" and xs: "?X s"
      and l: "loopBody ?deps cb s = Inr s'"
    from i have core: "specCore D md html node s" by (simp add: specInv_def)
    from l quiet_loopBody[OF spec_quiet[OF core small], of cb]
    have "incrementBoth ?deps s = Inr s'" by simp
    from incrementBoth_Inr[OF this] obtain a mdW mdOut htmlW htmlOut where
      s': "s' = s\<lparr>currentMarkdownNode := a, markdownWalker := mdW, markdownOutput := mdOut,
                    effects := effects s @
                      [Incremented MARKDOWN_RENDERER a, Incremented HTML_RENDERER a],
                    currentHtmlNode := a, htmlWalker := htmlW, htmlOutput := htmlOut\<rparr>"
      by blast
    from xs show "?X s'" unfolding s' by simp
  next
    fix s :: "(FringeWalker, PagedDuplexStream, NodePath, 'e, 'c) RenderState" and f
    assume i: "specInv D md html node s" and m: "currentHtmlNode s \<noteq> None"
      and l: "loopBody ?deps cb s = Inl f"
    from i have core: "specCore D md html node s" by (simp add: specInv_def)
    from spec_loopBody_failed[OF i m l] spec_quiet[OF core small]
    show "?Q f" by simp
  next
    fix s :: "(FringeWalker, PagedDuplexStream, NodePath, 'e, 'c) RenderState"
    assume i: "specInv D md html node s" and xs: "?X s" and m: "currentHtmlNode s = None"
    from i have core: "specCore D md html node s" by (simp add: specInv_def)
    note c = specCoreD[OF core]
    from i m have atEnd: "cursor (htmlWalker s) = []" by (simp add: specInv_def)
    from xs plainSent_no_pages[of "effects s"]
    have none: "plainSent (effects s) = []" "richSent (effects s) = []" by simp_all
    from c(10,11) atEnd none have whole: "unsent (markdownOutput s) = render md node"
      "unsent (htmlOutput s) = render html node"
      by simp_all
    from xs m obtain before where b: "effects s = before @
        [Incremented MARKDOWN_RENDERER None, Incremented HTML_RENDERER None]"
      by auto
    with xs have nb: "pagesSent before = []" by simp
    let ?e = "ensureNewPages ?deps s"
    let ?plain = "fst (PagedDuplexStream_readPage (PagedDuplexStream_ensureNewPage (markdownOutput s)))"
    let ?rich = "fst (PagedDuplexStream_readPage (PagedDuplexStream_ensureNewPage (htmlOutput s)))"
    from c(8,9) small whole
    have short: "length (unsent (markdownOutput s)) \<le> sizeLimit (markdownOutput s)"
      "length (unsent (htmlOutput s)) \<le> sizeLimit (htmlOutput s)"
      by simp_all
    have "fitsPage (sizeLimit (markdownOutput s)) (pieces (markdownOutput s))"
      and "fitsPage (sizeLimit (htmlOutput s)) (pieces (htmlOutput s))"
      by (rule fitsPage_small[OF short(1)], rule fitsPage_small[OF short(2)])
    then have texts: "pageText ?plain = render md node" "pageText ?rich = render html node"
      using whole by (simp_all add: readPage_after_ensureNewPage)
    from c(8,9) small have "0 < sizeLimit (markdownOutput s)" "0 < sizeLimit (htmlOutput s)"
      by simp_all
    with whole content have peek: "somePeekPage ?deps ?e"
      by (auto simp: somePeekPage_def ensureNewPages_def peekPage_ensureNewPage)
    show "?Q (finalFlush ?deps cb s)"
    proof (cases "sendPage ?deps cb ?e")
      case (Inl failed)
      with peek finalFlush_cases[of ?deps s cb] have f: "finalFlush ?deps cb s = failed" by simp
      from sendPage_Inl[OF Inl] obtain e where
        "cb (cbState s) ?plain ?rich = (Inl e, cbFinal failed)"
        "returned failed = Inl (SendRejected e)"
        "performed failed = effects s @
             [PageRead MARKDOWN_RENDERER ?plain, PageRead HTML_RENDERER ?rich,
              Sent ?plain ?rich (Inl e)]"
        by (auto simp: ensureNewPages_def)
      with xs b nb texts show ?thesis
        unfolding f
        by (intro exI[of _ before] exI[of _ ?plain] exI[of _ ?rich] exI[of _ "Inl e"]
            exI[of _ "cbFinal failed"]) simp
    next
      case (Inr st2)
      with peek finalFlush_cases[of ?deps s cb]
      have f: "finalFlush ?deps cb s =
             \<lparr>returned = Inr (eventIds st2), collected = eventIds st2, cbFinal = cbState st2,
              performed = effects st2\<rparr>" by simp
      from sendPage_Inr[OF Inr] obtain eventId c' where
        "cb (cbState s) ?plain ?rich = (Inr eventId, c')"
        "effects st2 = effects s @
             [PageRead MARKDOWN_RENDERER ?plain, PageRead HTML_RENDERER ?rich,
              Sent ?plain ?rich (Inr eventId)]"
        "eventIds st2 = eventIds s @ [eventId]"
        by (auto simp: ensureNewPages_def)
      with xs b nb texts show ?thesis
        unfolding f
        by (intro exI[of _ before] exI[of _ ?plain] exI[of _ ?rich] exI[of _ "Inr eventId"]
            exI[of _ c']) simp
    qed
  qed
  with run show ?thesis by auto
qed

theorem small_document_is_one_page_witness:
  "\<exists>r plainPage richPage.
     renderMatrix (specCollaborators 64 exampleMarkdown exampleHtml) helloWorld acceptAll 0
       = Some r \<and>
     pagesSent (performed r) = [(plainPage, richPage)] \<and>
     pageText plainPage = render exampleMarkdown helloWorld \<and>
     pageText richPage = ''<p>hello</p><p>world</p>'' \<and>
     returned r = Inr [''$event'']"
proof -
  have root: "tag helloWorld = Root" by (simp add: helloWorld_def)
  have small: "length (render exampleMarkdown helloWorld) < 64"
    "length (render exampleHtml helloWorld) < 64"
    by code_simp+
  have html: "render exampleHtml helloWorld = ''<p>hello</p><p>world</p>''" by code_simp
  then have content: "render exampleMarkdown helloWorld \<noteq> [] \<or> render exampleHtml helloWorld \<noteq> []"
    by simp
  from small_document_is_one_page[OF root small content, of acceptAll 0]
  obtain r before plainPage richPage answer c' where
    r: "renderMatrix (specCollaborators 64 exampleMarkdown exampleHtml) helloWorld acceptAll 0
          = Some r"
    and p: "performed r = before @
             [Incremented MARKDOWN_RENDERER None, Incremented HTML_RENDERER None,
              PageRead MARKDOWN_RENDERER plainPage, PageRead HTML_RENDERER richPage,
              Sent plainPage richPage answer]"
    and b: "pagesSent before = []"
    and t: "pageText plainPage = render exampleMarkdown helloWorld"
      "pageText richPage = render exampleHtml helloWorld"
    and a: "acceptAll 0 plainPage richPage = (answer, c')"
    and ret: "returned r = (case answer of Inl e \<Rightarrow> Inl (SendRejected e)
                         | Inr eventId \<Rightarrow> Inr [eventId])"
    by blast
  from a have "answer = Inr ''$event''" by (auto simp: acceptAll_def)
  with ret have "returned r = Inr [''$event'']" by simp
  moreover from p b have "pagesSent (performed r) = [(plainPage, richPage)]" by simp
  ultimately show ?thesis using r t html by auto
qed

theorem small_document_is_one_page_counterexample:
  "length (render exampleMarkdown (DocumentNode Root [])) < 64 \<and>
   length (render exampleHtml (DocumentNode Root [])) < 64 \<and>
   renderMatrix (specCollaborators 64 exampleMarkdown exampleHtml) (DocumentNode Root [])
     acceptAll 0 \<noteq> None \<and>
   pagesSent (performed (the (renderMatrix (specCollaborators 64 exampleMarkdown exampleHtml)
     (DocumentNode Root []) acceptAll 0))) = [] \<and>
   returned (the (renderMatrix (specCollaborators 64 exampleMarkdown exampleHtml)
     (DocumentNode Root []) acceptAll 0)) = Inr []"
  by (intro conjI; code_simp)



subsection \<open>The page size\<close>

lemma renderMatrix_streamsConstructed:
  fixes deps :: "('w, 's, 'n) Collaborators" and cb :: "('e, 'c) SendMatrixEventCB"
  assumes run: "renderMatrix deps node cb c0 = Some r"
  shows "streamsConstructed (performed r) =
           (if tag node = Root
            then [(MARKDOWN_RENDERER, None), (HTML_RENDERER, None)]
            else [])"
proof (cases "tag node = Root")
  case False
  with run show ?thesis by (auto simp: renderMatrix_def)
next
  case True
  let ?two = "[(MARKDOWN_RENDERER, None), (HTML_RENDERER, None :: nat option)]"
  let ?st0 = "constructed deps node c0 :: ('w, 's, 'n, 'e, 'c) RenderState"
  have c0: "streamsConstructed (effects ?st0) = ?two" by (simp add: constructed_def)
  have "streamsConstructed (performed r) = ?two"
  proof (cases "incrementBoth deps ?st0")
    case (Inl failed)
    with run True have "failed = r" by (simp add: renderMatrix_def)
    with incrementBoth_effects[where deps = deps and st = "?st0"] Inl c0 show ?thesis by auto
  next
    case (Inr st1)
    with run True have loop: "renderLoop deps cb st1 = Some r" by (simp add: renderMatrix_def)
    from incrementBoth_effects[where deps = deps and st = "?st0"] Inr c0
    have inv1: "streamsConstructed (effects st1) = ?two" by auto
    show ?thesis
    proof (rule renderLoop_rule[where Inv = "\<lambda>s. streamsConstructed (effects s) = ?two"
          and Q = "\<lambda>r. streamsConstructed (performed r) = ?two", OF loop inv1])
      fix s s' :: "('w, 's, 'n, 'e, 'c) RenderState"
      assume "streamsConstructed (effects s) = ?two" and "loopBody deps cb s = Inr s'"
      with loopBody_effects[where deps = deps and cb = cb and st = s] show "streamsConstructed (effects s') = ?two"
        by auto
    next
      fix s :: "('w, 's, 'n, 'e, 'c) RenderState" and f
      assume "streamsConstructed (effects s) = ?two" and "loopBody deps cb s = Inl f"
      with loopBody_effects[where deps = deps and cb = cb and st = s] show "streamsConstructed (performed f) = ?two"
        by auto
    next
      fix s :: "('w, 's, 'n, 'e, 'c) RenderState"
      assume "streamsConstructed (effects s) = ?two"
      with finalFlush_effects[where deps = deps and cb = cb and st = s]
      show "streamsConstructed (performed (finalFlush deps cb s)) = ?two"
        by auto
    qed
  qed
  with True show ?thesis by simp
qed

text \<open>
  C7, amended.  \<^verbatim>\<open>renderMatrix\<close> takes the document node and the send callback and
  nothing else.  A run on a Root node constructs exactly two streams, the markdown one
  and the html one, each with no size argument; so the run is the same whatever the
  stream class does with a size it is given.  As the claim has it, with a page size
  given to the orchestrator and passed to the streams, it fails: no size reaches a
  stream.
\<close>

theorem streams_constructed_without_page_size:
  fixes deps :: "('w, 's, 'n) Collaborators" and cb :: "('e, 'c) SendMatrixEventCB"
  shows "(f None = PagedDuplexStream_new deps None \<longrightarrow>
            renderMatrix (deps\<lparr>PagedDuplexStream_new := f\<rparr>) node cb c0 =
              renderMatrix deps node cb c0) \<and>
         (renderMatrix deps node cb c0 = Some r \<longrightarrow>
            streamsConstructed (performed r) =
              (if tag node = Root
               then [(MARKDOWN_RENDERER, None), (HTML_RENDERER, None)]
               else []))"
  using renderMatrix_with_no_size[of f deps node cb c0]
    renderMatrix_streamsConstructed[of deps node cb c0 r]
  by blast

theorem streams_constructed_without_page_size_witness:
  "renderMatrix ((specCollaborators 64 exampleMarkdown exampleHtml)
       \<lparr>PagedDuplexStream_new := clampedSizes\<rparr>) helloWorld acceptAll 0 =
     renderMatrix (specCollaborators 64 exampleMarkdown exampleHtml) helloWorld acceptAll 0 \<and>
   (\<exists>r. renderMatrix (specCollaborators 64 exampleMarkdown exampleHtml) helloWorld acceptAll 0
          = Some r \<and>
        streamsConstructed (performed r) =
          [(MARKDOWN_RENDERER, None), (HTML_RENDERER, None)]) \<and>
   (\<exists>r. renderMatrix (specCollaborators 64 exampleMarkdown exampleHtml)
          (DocumentNode Paragraph []) acceptAll 0 = Some r \<and>
        streamsConstructed (performed r) = [])"
proof -
  let ?deps = "specCollaborators 64 exampleMarkdown exampleHtml"
  have same: "clampedSizes None = PagedDuplexStream_new ?deps None"
    by (simp add: clampedSizes_def)
  have "renderMatrix ?deps helloWorld acceptAll 0 \<noteq> None" by code_simp
  then obtain r where r: "renderMatrix ?deps helloWorld acceptAll 0 = Some r" by auto
  have "renderMatrix ?deps (DocumentNode Paragraph []) acceptAll 0 \<noteq> None" by code_simp
  then obtain r' where r': "renderMatrix ?deps (DocumentNode Paragraph []) acceptAll 0 = Some r'"
    by auto
  from streams_constructed_without_page_size
         [where f = clampedSizes and deps = "?deps" and node = helloWorld and cb = acceptAll
            and ?c0.0 = 0 and r = r]
       streams_constructed_without_page_size
         [where f = clampedSizes and deps = "?deps" and node = "DocumentNode Paragraph []"
            and cb = acceptAll and ?c0.0 = 0 and r = r']
       same r r'
  show ?thesis by (simp add: helloWorld_def)
qed

theorem page_size_is_an_input_counterexample:
  "sizeLimit (PagedDuplexStream_new (specCollaborators 64 exampleMarkdown exampleHtml) (Some 8))
     = 8 \<and>
   sizeLimit (markdownOutput
     (constructed (specCollaborators 64 exampleMarkdown exampleHtml) helloWorld (0 :: nat)
        :: (FringeWalker, PagedDuplexStream, NodePath, string, nat) RenderState)) = 64 \<and>
   sizeLimit (htmlOutput
     (constructed (specCollaborators 64 exampleMarkdown exampleHtml) helloWorld (0 :: nat)
        :: (FringeWalker, PagedDuplexStream, NodePath, string, nat) RenderState)) = 64 \<and>
   streamsConstructed (performed (the (renderMatrix
      (specCollaborators 64 exampleMarkdown exampleHtml) helloWorld acceptAll 0)))
     = [(MARKDOWN_RENDERER, None), (HTML_RENDERER, None)] \<and>
   richPages (performed (the (renderMatrix
      (specCollaborators 64 exampleMarkdown exampleHtml) helloWorld acceptAll 0)))
     = [''<p>hello</p><p>world</p>'']"
  by (intro conjI; code_simp)

subsection \<open>Pages are sent as they become ready\<close>

text \<open>
  C8, amended.  Whatever the collaborators, the steps of a run on a Root node are,
  after the constructions, a sequence of blocks: pairs of increments, and sends, each
  made of the two reads of a page followed at once by the send of the texts read; only
  a run that a walker ends by raising may stop inside a pair.  A send is never the
  first block and never follows another send directly: a page is read only to be sent,
  and the answer to its send comes before the next increment and before the next read.
  The callback is called on the pages of the run and on nothing else, one call after
  the other, and answers what the run records; a rejection is the last step; the
  identifiers collected and returned are the answers in send order.  As the claim has
  it, with no increment before the send of a page writing text of the next page, it
  fails with the stream of the spec: a page is cut at the best boundary within the
  size, and what the increments wrote beyond the cut waits in the stream for the next
  page.
\<close>

theorem pages_sent_before_more_is_rendered:
  fixes deps :: "('w, 's, 'n) Collaborators" and cb :: "('e, 'c) SendMatrixEventCB"
  assumes run: "renderMatrix deps node cb c0 = Some r"
  shows "(if tag node = Root
          then \<exists>blocks unpaired.
                 performed r = constructions @ concat blocks @ unpaired \<and>
                 spaced False blocks \<and>
                 (unpaired = [] \<or>
                  (\<exists>a msg. unpaired = [Incremented MARKDOWN_RENDERER a] \<and>
                           returned r = Inl (WalkerRaised msg)))
          else performed r = []) \<and>
         callbackRun cb c0 (pagesSent (performed r)) = (answers (performed r), cbFinal r) \<and>
         collected r = sentIds (performed r) \<and>
         (\<forall>ids. returned r = Inr ids \<longrightarrow> ids = sentIds (performed r)) \<and>
         (\<forall>e. returned r = Inl (SendRejected e) \<longrightarrow>
            (\<exists>before t h. performed r = before @ [Sent t h (Inl e)] \<and>
                          rejections before = []))"
proof (cases "tag node = Root")
  case False
  with run have "r = \<lparr>returned = Inl NoRootError, collected = [], cbFinal = c0, performed = []\<rparr>"
    by (auto simp: renderMatrix_def)
  with False show ?thesis by simp
next
  case True
  note ok = renderMatrix_outcomeOk[OF run True]
  have "\<exists>before t h. performed r = before @ [Sent t h (Inl e)] \<and> rejections before = []"
    if "returned r = Inl (SendRejected e)" for e
  proof -
    from ok that obtain pre t h where
      "performed r = pre @ [PageRead MARKDOWN_RENDERER t, PageRead HTML_RENDERER h,
                            Sent t h (Inl e)]"
      "rejections pre = []"
      by (auto simp: outcomeOk_def)
    then show ?thesis
      by (intro exI[of _ "pre @ [PageRead MARKDOWN_RENDERER t, PageRead HTML_RENDERER h]"]
          exI[of _ t] exI[of _ h]) simp
  qed
  moreover from ok have "collected r = sentIds (performed r)"
    and "\<forall>ids. returned r = Inr ids \<longrightarrow> ids = sentIds (performed r)"
    by (auto simp: outcomeOk_def)
  ultimately show ?thesis
    using True renderMatrix_blocks[OF True run] renderMatrix_callbackRun[OF run]
    by simp
qed

theorem pages_sent_before_more_is_rendered_witness:
  "\<exists>r blocks.
     renderMatrix (specCollaborators 8 exampleMarkdown exampleHtml) helloWorld acceptAll 0
       = Some r \<and>
     performed r = constructions @ concat blocks \<and> spaced False blocks \<and>
     returned r = Inr [''$event'', ''$event+'', ''$event++'', ''$event+++''] \<and>
     callbackRun acceptAll 0 (pagesSent (performed r)) =
       ([Inr ''$event'', Inr ''$event+'', Inr ''$event++'', Inr ''$event+++''], 4) \<and>
     sentIds (performed r) = [''$event'', ''$event+'', ''$event++'', ''$event+++'']"
proof -
  let ?deps = "specCollaborators 8 exampleMarkdown exampleHtml"
  let ?run = "renderMatrix ?deps helloWorld acceptAll 0"
  have root: "tag helloWorld = Root" by (simp add: helloWorld_def)
  have "?run \<noteq> None" by code_simp
  then obtain r where r: "?run = Some r" by auto
  have "returned (the ?run) = Inr [''$event'', ''$event+'', ''$event++'', ''$event+++'']"
    and "answers (performed (the ?run)) =
           [Inr ''$event'', Inr ''$event+'', Inr ''$event++'', Inr ''$event+++'']"
    and "cbFinal (the ?run) = 4"
    by code_simp+
  with r have ret: "returned r = Inr [''$event'', ''$event+'', ''$event++'', ''$event+++'']"
    and facts: "answers (performed r) =
           [Inr ''$event'', Inr ''$event+'', Inr ''$event++'', Inr ''$event+++'']"
      "cbFinal r = 4"
    by simp_all
  note all = pages_sent_before_more_is_rendered[OF r]
  from all root have "\<exists>blocks unpaired.
                 performed r = constructions @ concat blocks @ unpaired \<and>
                 spaced False blocks \<and>
                 (unpaired = [] \<or>
                  (\<exists>a msg. unpaired = [Incremented MARKDOWN_RENDERER a] \<and>
                           returned r = Inl (WalkerRaised msg)))"
    by simp
  then obtain blocks unpaired where b: "performed r = constructions @ concat blocks @ unpaired"
      "spaced False blocks"
    and u: "unpaired = [] \<or>
              (\<exists>a msg. unpaired = [Incremented MARKDOWN_RENDERER a] \<and>
                       returned r = Inl (WalkerRaised msg))"
    by blast
  from all have called: "callbackRun acceptAll 0 (pagesSent (performed r)) =
                   (answers (performed r), cbFinal r)"
    and ids: "\<forall>ids. returned r = Inr ids \<longrightarrow> ids = sentIds (performed r)"
    by blast+
  from u ret have "unpaired = []" by auto
  with b have blocks: "performed r = constructions @ concat blocks" by simp
  from ids ret have "sentIds (performed r) = [''$event'', ''$event+'', ''$event++'', ''$event+++'']"
    by simp
  with blocks b(2) ret facts called r show ?thesis by auto
qed

theorem pages_sent_before_more_is_rendered_counterexample:
  "richPages (performed (the (renderMatrix (specCollaborators 8 exampleMarkdown exampleHtml)
      helloWorld acceptAll 0))) = [''<p>hello'', ''</p>'', ''<p>world'', ''</p>''] \<and>
   pagesWritten exampleHtml HTML_RENDERER (fringe [] helloWorld) []
     (performed (the (renderMatrix (specCollaborators 8 exampleMarkdown exampleHtml)
        helloWorld acceptAll 0))) = [''<p>hello'', ''</p><p>world'', [], ''</p>''] \<and>
   take 10 (drop 19 (performed (the (renderMatrix
      (specCollaborators 8 exampleMarkdown exampleHtml) helloWorld acceptAll 0)))) =
     [Incremented MARKDOWN_RENDERER (Some [1, 0]), Incremented HTML_RENDERER (Some [1, 0]),
      PageRead MARKDOWN_RENDERER (Some ([CHR 0x0A, CHR 0x0A] @ ''world'')),
      PageRead HTML_RENDERER (Some ''</p>''),
      Sent (Some ([CHR 0x0A, CHR 0x0A] @ ''world'')) (Some ''</p>'') (Inr ''$event+''),
      Incremented MARKDOWN_RENDERER (Some [1, 0]), Incremented HTML_RENDERER (Some [1, 0]),
      PageRead MARKDOWN_RENDERER None, PageRead HTML_RENDERER (Some ''<p>world''),
      Sent None (Some ''<p>world'') (Inr ''$event++'')]"
  by (intro conjI; code_simp)

end
